theory Spec2Isabelle
  imports Complex_Main "HOL-Library.AList" "HOL-Library.Multiset"
begin

section \<open>Library values used by the program\<close>

subsection \<open>decimal.js values\<close>

text \<open>
  A \<^verbatim>\<open>Decimal\<close> of decimal.js is a finite decimal, an infinity or NaN. A finite value
  is represented by the rational it denotes. The constructor \<^verbatim>\<open>new Decimal(string)\<close>
  and \<^verbatim>\<open>abs\<close> are exact; \<^verbatim>\<open>times\<close> and \<^verbatim>\<open>dividedBy\<close> round their result to the
  \<^verbatim>\<open>precision\<close> of the library, 20 significant digits, in its rounding mode
  \<^verbatim>\<open>ROUND_HALF_UP\<close>, to the nearest and away from zero on a tie; the program leaves
  both settings at their defaults. The sign of zero and the bounds of the exponent are
  not represented.
\<close>

datatype decimal = Fin rat | Inf bool | NaN

text \<open>The number of decimal digits of a natural number.\<close>

fun digits :: "nat \<Rightarrow> nat" where
  "digits n = (if n < 10 then 1 else Suc (digits (n div 10)))"

declare digits.simps [simp del]

text \<open>
  A power of ten, the exponent \<open>e\<close> of a rational \<open>q\<close> other than zero, for which
  \<open>10 ^ e \<le> \<bar>q\<bar> < 10 ^ (e + 1)\<close>, and \<open>q\<close> rounded to 20 significant digits.
\<close>

definition pow10 :: "int \<Rightarrow> rat" where
  "pow10 e = (if 0 \<le> e then 10 ^ nat e else 1 / 10 ^ nat (- e))"

definition exponent :: "rat \<Rightarrow> int" where
  "exponent q = (if 1 \<le> \<bar>q\<bar> then int (digits (nat \<lfloor>\<bar>q\<bar>\<rfloor>)) - 1
                 else - int (digits (nat (\<lceil>1 / \<bar>q\<bar>\<rceil> - 1))))"

definition round20 :: "rat \<Rightarrow> rat" where
  "round20 q = (if q = 0 then 0
     else sgn q * of_int \<lfloor>\<bar>q\<bar> * pow10 (19 - exponent q) + 1 / 2\<rfloor> / pow10 (19 - exponent q))"

fun times :: "decimal \<Rightarrow> decimal \<Rightarrow> decimal" where
  "times NaN _ = NaN"
| "times _ NaN = NaN"
| "times (Fin a) (Fin b) = Fin (round20 (a * b))"
| "times (Fin a) (Inf s) = (if a = 0 then NaN else Inf (s = (0 < a)))"
| "times (Inf s) (Fin b) = (if b = 0 then NaN else Inf (s = (0 < b)))"
| "times (Inf s) (Inf t) = Inf (s = t)"

fun dividedBy :: "decimal \<Rightarrow> decimal \<Rightarrow> decimal" where
  "dividedBy NaN _ = NaN"
| "dividedBy _ NaN = NaN"
| "dividedBy (Fin a) (Fin b) =
     (if b = 0 then (if a = 0 then NaN else Inf (0 < a)) else Fin (round20 (a / b)))"
| "dividedBy (Fin a) (Inf s) = Fin 0"
| "dividedBy (Inf s) (Fin b) = Inf (s = (0 \<le> b))"
| "dividedBy (Inf s) (Inf t) = NaN"

fun isPositive :: "decimal \<Rightarrow> bool" where
  "isPositive (Fin a) = (0 \<le> a)"
| "isPositive (Inf s) = s"
| "isPositive NaN = False"

fun abs_dec :: "decimal \<Rightarrow> decimal" where
  "abs_dec (Fin a) = Fin \<bar>a\<bar>"
| "abs_dec (Inf s) = Inf True"
| "abs_dec NaN = NaN"

subsection \<open>Exceptions\<close>

text \<open>
  Every exception and rejected promise of the program is a value: \<open>TypeError\<close> for a
  property read on \<^verbatim>\<open>undefined\<close> or \<^verbatim>\<open>null\<close> and for the argument checks of
  ethers, \<open>DecimalError\<close> for an invalid argument of decimal.js, \<open>Rejected\<close> for a
  failed call to an external service.
\<close>

datatype error = TypeError | DecimalError | Rejected

section \<open>Data model\<close>

text \<open>
  The value of a \<^verbatim>\<open>symbol\<close> field: a string, \<^verbatim>\<open>null\<close> or \<^verbatim>\<open>undefined\<close>. The
  three kinds are kept apart because a \<^verbatim>\<open>Map\<close> does: \<^verbatim>\<open>null\<close> and \<^verbatim>\<open>undefined\<close>
  are two different keys.
\<close>

datatype symbol = Sym string | Null_symbol | Undefined_symbol

text \<open>
  \<^verbatim>\<open>interface Token { id; symbol; decimal }\<close> as parseSwapEvents builds it from the
  metadata response: \<^verbatim>\<open>symbol\<close> and \<^verbatim>\<open>decimals\<close> of the response may be \<^verbatim>\<open>null\<close>.
\<close>

record Token =
  tsymbol :: symbol
  tdecimal :: "nat option"

record PairToken =
  pair_token0 :: Token
  pair_token1 :: Token

text \<open>
  One leg of a swap event, the object stored in \<^verbatim>\<open>logs[i].token0\<close> and
  \<^verbatim>\<open>logs[i].token1\<close>. parseSwapEvents creates it with \<^verbatim>\<open>symbol\<close> and \<^verbatim>\<open>amount\<close>;
  fillUSDAmounts reads \<^verbatim>\<open>id\<close> and writes the two USD fields. A field other than
  the symbol that is \<^verbatim>\<open>undefined\<close> or \<^verbatim>\<open>null\<close> is \<open>None\<close>: the program treats the
  two alike there.
\<close>

record leg =
  id' :: "string option"
  lsymbol :: symbol
  amount :: "decimal option"
  value_in_usd :: "decimal option"
  total_exchanged_usd :: "decimal option"

text \<open>
  A log as the chain-data provider delivers it. \<^verbatim>\<open>fromAddress\<close> and
  \<^verbatim>\<open>timestamp\<close> are read by the persistence loops and set by nothing in the
  repository.
\<close>

record log =
  address :: string
  topics :: "string list"
  blockNumber :: nat
  blockHash :: string
  transactionHash :: string
  fromAddress :: "string option"
  timestamp :: "string option"

section \<open>index.ts: decoding a swap\<close>

text \<open>
  \<^verbatim>\<open>ethers.formatUnits(value, unit)\<close>: the decimal string of \<open>value / 10 ^ unit\<close>, with
  18 decimals when \<^verbatim>\<open>unit\<close> is \<^verbatim>\<open>null\<close>; a \<^verbatim>\<open>value\<close> that is \<^verbatim>\<open>undefined\<close> is
  refused. \<^verbatim>\<open>new Decimal(...)\<close> of that string is exact.
\<close>

definition formatUnits :: "int option \<Rightarrow> nat option \<Rightarrow> error + decimal" where
  "formatUnits v unit =
     (case v of
        None \<Rightarrow> Inl TypeError
      | Some a \<Rightarrow> Inr (Fin (of_int a / 10 ^ (case unit of None \<Rightarrow> 18 | Some d \<Rightarrow> d))))"

text \<open>Lines 134 to 152 of index.ts: the two legs stored in the log.\<close>

definition directional_legs :: "PairToken \<Rightarrow> decimal \<Rightarrow> decimal \<Rightarrow> leg \<times> leg" where
  "directional_legs pairToken amount0Decimal amount1Decimal =
     (if isPositive amount0Decimal then
        (\<lparr>id' = None, lsymbol = tsymbol (pair_token0 pairToken), amount = Some amount0Decimal,
          value_in_usd = None, total_exchanged_usd = None\<rparr>,
         \<lparr>id' = None, lsymbol = tsymbol (pair_token1 pairToken), amount = Some (abs_dec amount1Decimal),
          value_in_usd = None, total_exchanged_usd = None\<rparr>)
      else
        (\<lparr>id' = None, lsymbol = tsymbol (pair_token1 pairToken), amount = Some amount1Decimal,
          value_in_usd = None, total_exchanged_usd = None\<rparr>,
         \<lparr>id' = None, lsymbol = tsymbol (pair_token0 pairToken), amount = Some (abs_dec amount0Decimal),
          value_in_usd = None, total_exchanged_usd = None\<rparr>))"

text \<open>Lines 131 to 152: scaling of the two raw deltas, then the legs.\<close>

definition decode_legs :: "PairToken \<Rightarrow> int option \<Rightarrow> int option \<Rightarrow> error + leg \<times> leg" where
  "decode_legs pairToken amount0 amount1 =
     (case formatUnits amount0 (tdecimal (pair_token0 pairToken)) of
        Inl e \<Rightarrow> Inl e
      | Inr amount0Decimal \<Rightarrow>
          (case formatUnits amount1 (tdecimal (pair_token1 pairToken)) of
             Inl e \<Rightarrow> Inl e
           | Inr amount1Decimal \<Rightarrow> Inr (directional_legs pairToken amount0Decimal amount1Decimal)))"

text \<open>The scaled value of a raw delta, as a rational.\<close>

definition scaled :: "int \<Rightarrow> nat option \<Rightarrow> rat" where
  "scaled a unit = of_int a / 10 ^ (case unit of None \<Rightarrow> 18 | Some d \<Rightarrow> d)"


section \<open>webhooksUtil.ts: the price graph\<close>

text \<open>
  A swap event as fillUSDAmounts receives it: the log with the two legs that
  parseSwapEvents stored in it.
\<close>

record swapEvent = log +
  token0 :: leg
  token1 :: leg

text \<open>An entry \<^verbatim>\<open>{ symbol: B, ratio: ratio }\<close> of an adjacency list.\<close>

datatype edge = Edge (esymbol: symbol) (ratio: decimal)

text \<open>
  \<^verbatim>\<open>graph\<close> is a JavaScript \<^verbatim>\<open>Map\<close> from a symbol to its adjacency list: an association
  list with distinct keys, in insertion order. \<^verbatim>\<open>symbol2USD\<close> is a \<^verbatim>\<open>Map\<close> that is only
  read by key: a partial function.
\<close>

type_synonym graph = "(symbol \<times> edge list) list"

type_synonym prices = "symbol \<rightharpoonup> decimal"

definition addEdge :: "graph \<Rightarrow> symbol \<Rightarrow> symbol \<Rightarrow> decimal \<Rightarrow> graph" where
  "addEdge graph A B r =
     (case map_of graph A of
        Some es \<Rightarrow> AList.update A (es @ [Edge B r]) graph
      | None \<Rightarrow> graph @ [(A, [Edge B r])])"

text \<open>
  JavaScript truthiness of a symbol: \<^verbatim>\<open>null\<close>, \<^verbatim>\<open>undefined\<close> and the empty string
  are falsy.
\<close>

definition truthy :: "symbol \<Rightarrow> bool" where
  "truthy s = (case s of Sym x \<Rightarrow> x \<noteq> [] | Null_symbol \<Rightarrow> False | Undefined_symbol \<Rightarrow> False)"

text \<open>
  \<^verbatim>\<open>x.dividedBy(y)\<close> and \<^verbatim>\<open>x.times(y)\<close> on fields that may be \<^verbatim>\<open>undefined\<close>: a
  missing receiver is a TypeError, a missing argument is refused by decimal.js.
\<close>

definition call_dividedBy :: "decimal option \<Rightarrow> decimal option \<Rightarrow> error + decimal" where
  "call_dividedBy x y =
     (case x of
        None \<Rightarrow> Inl TypeError
      | Some a \<Rightarrow> (case y of None \<Rightarrow> Inl DecimalError | Some b \<Rightarrow> Inr (dividedBy a b)))"

definition call_times :: "decimal option \<Rightarrow> decimal option \<Rightarrow> error + decimal" where
  "call_times x y =
     (case x of
        None \<Rightarrow> Inl TypeError
      | Some a \<Rightarrow> (case y of None \<Rightarrow> Inl DecimalError | Some b \<Rightarrow> Inr (times a b)))"

text \<open>Lines 356 to 361: the loop that builds the graph.\<close>

fun build_graph :: "graph \<Rightarrow> swapEvent list \<Rightarrow> error + graph" where
  "build_graph graph [] = Inr graph"
| "build_graph graph (se # ses) =
     (if truthy (lsymbol (token0 se)) \<and> truthy (lsymbol (token1 se)) then
        (case call_dividedBy (amount (token0 se)) (amount (token1 se)) of
           Inl e \<Rightarrow> Inl e
         | Inr r01 \<Rightarrow>
             (case call_dividedBy (amount (token1 se)) (amount (token0 se)) of
                Inl e \<Rightarrow> Inl e
              | Inr r10 \<Rightarrow>
                  build_graph
                    (addEdge (addEdge graph (lsymbol (token0 se)) (lsymbol (token1 se)) r01)
                       (lsymbol (token1 se)) (lsymbol (token0 se)) r10)
                    ses))
      else build_graph graph ses)"

text \<open>
  Line 363: the initial stack. It is a JavaScript array: \<^verbatim>\<open>push\<close> appends at the end
  and \<^verbatim>\<open>pop\<close> removes the last element.
\<close>

definition stack0 :: "symbol list" where
  "stack0 = map Sym
     [''GHO'', ''GRAI'', ''SEUR'', ''aUSDC'', ''BUSD'', ''GUSD'', ''CRVUSD'', ''EUSD'', ''aUSDT'',
      ''USDP'', ''TUSD'', ''MIM'', ''EURA'', ''TAI'', ''XAI'', ''USDD'', ''BOB'', ''PUSd'', ''EUSD'',
      ''DAI'', ''VEUR'', ''DOLA'', ''FRAX'', ''anyCRU'', ''anyETH'', ''MXNt'', ''LUSD'', ''SUSD'',
      ''USDC'', ''USDT'', ''WETH'']"

text \<open>Lines 365 to 370: WETH at the reference rate, every other entry of the stack at 1.\<close>

definition seed :: "decimal \<Rightarrow> prices" where
  "seed ETH2USD =
     fold (\<lambda>s m. m(s \<mapsto> Fin 1)) (butlast stack0) (Map.empty(Sym ''WETH'' \<mapsto> ETH2USD))"

text \<open>
  Lines 376 to 381 (and 403 to 408): the loop over the adjacency list of \<open>symbol\<close>.
  \<^verbatim>\<open>symbol2USD.get(symbol).times(...)\<close> is a TypeError when \<open>symbol\<close> has no price.
\<close>

fun relax :: "symbol \<Rightarrow> edge list \<Rightarrow> prices \<times> symbol list \<Rightarrow>
    error + prices \<times> symbol list" where
  "relax symbol [] (symbol2USD, stack) = Inr (symbol2USD, stack)"
| "relax symbol (right # rest) (symbol2USD, stack) =
     (if symbol2USD (esymbol right) = None then
        (case call_times (symbol2USD symbol) (Some (ratio right)) of
           Inl e \<Rightarrow> Inl e
         | Inr v \<Rightarrow> relax symbol rest (symbol2USD(esymbol right \<mapsto> v), stack @ [esymbol right]))
      else relax symbol rest (symbol2USD, stack))"

text \<open>The symbols that occur as the target of an edge.\<close>

definition targets :: "graph \<Rightarrow> symbol set" where
  "targets graph = (\<Union>(k, es) \<in> set graph. esymbol ` set es)"

text \<open>Lines 372 to 382 (and 399 to 409): the traversal.\<close>

function traverse :: "graph \<Rightarrow> symbol list \<Rightarrow> prices \<Rightarrow> error + prices" where
  "traverse graph stack symbol2USD =
     (if stack = [] then Inr symbol2USD
      else
        (case map_of graph (last stack) of
           None \<Rightarrow> traverse graph (butlast stack) symbol2USD
         | Some es \<Rightarrow>
             (case relax (last stack) es (symbol2USD, butlast stack) of
                Inl e \<Rightarrow> Inl e
              | Inr (symbol2USD', stack') \<Rightarrow> traverse graph stack' symbol2USD')))"
  by pat_completeness auto

lemma finite_targets: "finite (targets g)"
  by (auto simp: targets_def)

lemma relax_dom:
  "relax s es (p, st) = Inr (p', st') \<Longrightarrow>
     dom p \<subseteq> dom p' \<and> dom p' \<subseteq> dom p \<union> esymbol ` set es \<and>
     (dom p' = dom p \<longrightarrow> st' = st \<and> p' = p)"
proof (induction es arbitrary: p st)
  case Nil
  then show ?case by simp
next
  case (Cons r rs)
  show ?case
  proof (cases "p (esymbol r) = None")
    case True
    with Cons.prems obtain v where v: "call_times (p s) (Some (ratio r)) = Inr v"
      and rec: "relax s rs (p(esymbol r \<mapsto> v), st @ [esymbol r]) = Inr (p', st')"
      by (auto split: sum.splits)
    from Cons.IH [OF rec] have ih: "insert (esymbol r) (dom p) \<subseteq> dom p'"
      "dom p' \<subseteq> insert (esymbol r) (dom p) \<union> esymbol ` set rs"
      by (simp_all del: fun_upd_apply)
    from True have "esymbol r \<notin> dom p" by blast
    with ih have "dom p' \<noteq> dom p" by blast
    with ih show ?thesis by auto
  next
    case False
    with Cons.prems have "relax s rs (p, st) = Inr (p', st')" by simp
    from Cons.IH [OF this] show ?thesis by auto
  qed
qed

termination traverse
proof (relation "inv_image (finite_psubset <*lex*> less_than)
                   (\<lambda>(g, st, p). (targets g - dom p, length st))", goal_cases)
  case 1
  show ?case by (intro wf_inv_image wf_lex_prod wf_finite_psubset wf_less_than)
next
  case (2 graph stack symbol2USD)
  then show ?case by simp
next
  case (3 graph stack symbol2USD es x p' st')
  then have rel: "relax (last stack) es (symbol2USD, butlast stack) = Inr (p', st')" by simp
  from 3 have "(last stack, es) \<in> set graph" by (auto dest: map_of_SomeD)
  then have sub: "esymbol ` set es \<subseteq> targets graph" by (auto simp: targets_def)
  note d = relax_dom [OF rel]
  show ?case
  proof (cases "dom p' = dom symbol2USD")
    case True
    with d have "st' = butlast stack" by simp
    with True 3 show ?thesis by simp
  next
    case False
    with d sub have "targets graph - dom p' \<subset> targets graph - dom symbol2USD" by blast
    then show ?thesis by (simp add: finite_psubset_def finite_targets)
  qed
qed

declare traverse.simps [simp del]


section \<open>webhooksUtil.ts: pricing the swaps of a batch\<close>

text \<open>
  A parameter of a query, and an INSERT statement as far as the program fixes it: the
  columns it names and the numbers of the placeholders in its \<^verbatim>\<open>VALUES\<close> list.
\<close>

datatype param = Num nat | Str string | Null

record statement =
  columns :: "string list"
  placeholders :: "nat list"

text \<open>
  What fillUSDAmounts works with. \<open>Moralis_getTokenPrice\<close> is the body of the
  \<^verbatim>\<open>try\<close> block of getEthereumTokenUSD (the request and \<^verbatim>\<open>new Decimal\<close> of its
  answer) and \<open>Decimal_toString\<close> is \<^verbatim>\<open>toString\<close> of decimal.js: both belong to
  the module. \<open>web3\<close> and \<open>client\<close> are the two arguments of that name, \<open>None\<close>
  when the caller passes none: of \<^verbatim>\<open>web3\<close> the expression of line 422 around
  \<^verbatim>\<open>web3.eth.getBlock\<close>, from a block number to the ISO string of its time; of
  \<^verbatim>\<open>client\<close> the method \<^verbatim>\<open>query\<close> on the store, with \<open>Some e\<close> for a rejected
  query.
\<close>

record 'db services =
  Moralis_getTokenPrice :: "string option \<Rightarrow> error + decimal"
  Decimal_toString :: "decimal \<Rightarrow> string"
  web3 :: "(nat \<Rightarrow> error + string) option"
  client :: "('db \<Rightarrow> statement \<Rightarrow> param list \<Rightarrow> error option \<times> 'db) option"

text \<open>
  Line 422, and \<^verbatim>\<open>client.query(query, values)\<close> of line 475 (169 in the other
  definition): a property read on an argument that is \<^verbatim>\<open>undefined\<close> is a TypeError.
  The second is raised inside the \<^verbatim>\<open>try\<close>, like a rejected query.
\<close>

definition block_timestamp :: "'db services \<Rightarrow> nat \<Rightarrow> error + string" where
  "block_timestamp srv n = (case web3 srv of None \<Rightarrow> Inl TypeError | Some getBlock \<Rightarrow> getBlock n)"

definition client_query :: "'db services \<Rightarrow> 'db \<Rightarrow> statement \<Rightarrow> param list \<Rightarrow> error option \<times> 'db" where
  "client_query srv db stmt vals =
     (case client srv of None \<Rightarrow> (Some TypeError, db) | Some query \<Rightarrow> query db stmt vals)"

text \<open>Lines 326 to 342: the oracle answers zero when the request fails.\<close>

definition getEthereumTokenUSD :: "(string option \<Rightarrow> error + decimal) \<Rightarrow> string option \<Rightarrow> decimal" where
  "getEthereumTokenUSD moralis token_address =
     (case moralis token_address of Inl e \<Rightarrow> Fin 0 | Inr usdPrice \<Rightarrow> usdPrice)"

text \<open>
  Line 394 compares two objects with \<^verbatim>\<open>==\<close>. On objects \<^verbatim>\<open>==\<close> is identity, not
  equality of the values they hold, so an object is represented by its address and its
  value. The comparison is between the object that getEthereumTokenUSD returned and the
  object that \<^verbatim>\<open>new Decimal(0)\<close> allocates next.
\<close>

datatype 'a obj = Obj (address_of: nat) (contents: 'a)

definition loose_eq :: "'a obj \<Rightarrow> 'a obj \<Rightarrow> bool" where
  "loose_eq x y = (address_of x = address_of y)"

text \<open>
  Lines 384 to 390, and again 411 to 418: the USD fields of the first leg when its
  symbol has a price and, inside that branch, of the second leg when its symbol has one.
\<close>

definition assign_usd :: "prices \<Rightarrow> swapEvent \<Rightarrow> error + swapEvent" where
  "assign_usd symbol2USD se =
     (case symbol2USD (lsymbol (token0 se)) of
        None \<Rightarrow> Inr se
      | Some v0 \<Rightarrow>
          (case call_times (Some v0) (amount (token0 se)) of
             Inl e \<Rightarrow> Inl e
           | Inr t0 \<Rightarrow>
               (let se0 = se\<lparr>token0 := (token0 se)\<lparr>value_in_usd := Some v0,
                                                    total_exchanged_usd := Some t0\<rparr>\<rparr>
                in case symbol2USD (lsymbol (token1 se0)) of
                     None \<Rightarrow> Inr se0
                   | Some v1 \<Rightarrow>
                       (case call_times (Some v1) (amount (token1 se0)) of
                          Inl e \<Rightarrow> Inl e
                        | Inr t1 \<Rightarrow>
                            Inr (se0\<lparr>token1 := (token1 se0)\<lparr>value_in_usd := Some v1,
                                                           total_exchanged_usd := Some t1\<rparr>\<rparr>)))))"

text \<open>
  The state of the loop of lines 383 to 419: \<open>usd\<close> is the price map
  \<^verbatim>\<open>symbol2USD\<close>, and \<open>asked\<close> lists the token ids passed to getEthereumTokenUSD
  so far. The stack is empty whenever an iteration starts, since a traversal ends on the
  empty stack.
\<close>

record pricing =
  usd :: prices
  asked :: "string option list"

text \<open>One iteration of the loop of lines 383 to 419.\<close>

definition price_event :: "graph \<Rightarrow> (string option \<Rightarrow> error + decimal) \<Rightarrow> pricing \<Rightarrow> swapEvent \<Rightarrow>
    error + pricing \<times> swapEvent" where
  "price_event graph moralis st se =
     (if usd st (lsymbol (token0 se)) \<noteq> None then
        (case assign_usd (usd st) se of
           Inl e \<Rightarrow> Inl e
         | Inr se1 \<Rightarrow> (case assign_usd (usd st) se1 of Inl e \<Rightarrow> Inl e | Inr se2 \<Rightarrow> Inr (st, se2)))
      else
        (let stack = [lsymbol (token0 se)];
             usdPrice = Obj 0 (getEthereumTokenUSD moralis (id' (token0 se)));
             st1 = st\<lparr>asked := asked st @ [id' (token0 se)]\<rparr>
         in if loose_eq usdPrice (Obj 1 (Fin 0)) then Inr (st1, se)
            else
              (case traverse graph stack ((usd st1)(lsymbol (token0 se) \<mapsto> contents usdPrice)) of
                 Inl e \<Rightarrow> Inl e
               | Inr symbol2USD \<Rightarrow>
                   (case assign_usd symbol2USD se of
                      Inl e \<Rightarrow> Inl e
                    | Inr se1 \<Rightarrow> Inr (st1\<lparr>usd := symbol2USD\<rparr>, se1)))))"

fun price_loop :: "graph \<Rightarrow> (string option \<Rightarrow> error + decimal) \<Rightarrow> pricing \<Rightarrow> swapEvent list \<Rightarrow>
    error + pricing \<times> swapEvent list" where
  "price_loop graph moralis st [] = Inr (st, [])"
| "price_loop graph moralis st (se # ses) =
     (case price_event graph moralis st se of
        Inl e \<Rightarrow> Inl e
      | Inr (st1, se1) \<Rightarrow>
          (case price_loop graph moralis st1 ses of
             Inl e \<Rightarrow> Inl e
           | Inr (st2, ses1) \<Rightarrow> Inr (st2, se1 # ses1)))"

text \<open>Lines 354 to 419 for a batch that is not empty: graph, seeding, traversal, loop.\<close>

definition price_batch :: "(string option \<Rightarrow> error + decimal) \<Rightarrow> swapEvent list \<Rightarrow> decimal \<Rightarrow>
    error + pricing \<times> swapEvent list" where
  "price_batch moralis swapEvents ETH2USD =
     (case build_graph [] swapEvents of
        Inl e \<Rightarrow> Inl e
      | Inr graph \<Rightarrow>
          (case traverse graph stack0 (seed ETH2USD) of
             Inl e \<Rightarrow> Inl e
           | Inr symbol2USD \<Rightarrow>
               price_loop graph moralis \<lparr>usd = symbol2USD, asked = []\<rparr> swapEvents))"

section \<open>webhooksUtil.ts: writing the rows\<close>

text \<open>
  \<^verbatim>\<open>(x ?? 0).toString()\<close>: \<^verbatim>\<open>toString\<close> of decimal.js on a value that is present, and
  of the number 0 otherwise.
\<close>

definition or0_toString :: "(decimal \<Rightarrow> string) \<Rightarrow> decimal option \<Rightarrow> string" where
  "or0_toString toString x = (case x of None \<Rightarrow> ''0'' | Some d \<Rightarrow> toString d)"

definition opt_param :: "string option \<Rightarrow> param" where
  "opt_param x = (case x of None \<Rightarrow> Null | Some s \<Rightarrow> Str s)"

definition symbol_param :: "symbol \<Rightarrow> param" where
  "symbol_param x = (case x of Sym s \<Rightarrow> Str s | Null_symbol \<Rightarrow> Null | Undefined_symbol \<Rightarrow> Null)"

text \<open>Lines 434 to 453: the statement, with 16 columns and the placeholders 1 to 15.\<close>

definition insert_swap_event :: statement where
  "insert_swap_event =
     \<lparr>columns = [''block_number'', ''block_hash'', ''transaction_hash'', ''wallet_address'',
        ''token0_id'', ''token0_symbol'', ''token0_amount'', ''token0_value_in_usd'',
        ''token0_total_exchanged_usd'', ''token1_id'', ''token1_symbol'', ''token1_amount'',
        ''token1_value_in_usd'', ''token1_total_exchanged_usd'', ''eth_price_usd'', ''created_at''],
      placeholders = [1, 2, 3, 4, 5, 6, 7, 8, 9, 10, 11, 12, 13, 14, 15]\<rparr>"

text \<open>Lines 455 to 472: the parameters of one INSERT.\<close>

definition row_values :: "(decimal \<Rightarrow> string) \<Rightarrow> decimal option \<Rightarrow> string \<Rightarrow> swapEvent \<Rightarrow> param list" where
  "row_values toString ETH2USD ts event =
     [Num (blockNumber event),
      Str (blockHash event),
      Str (transactionHash event),
      opt_param (fromAddress event),
      opt_param (id' (token0 event)),
      symbol_param (lsymbol (token0 event)),
      Str (or0_toString toString (amount (token0 event))),
      Str (or0_toString toString (value_in_usd (token0 event))),
      Str (or0_toString toString (total_exchanged_usd (token0 event))),
      opt_param (id' (token1 event)),
      symbol_param (lsymbol (token1 event)),
      Str (or0_toString toString (amount (token1 event))),
      Str (or0_toString toString (value_in_usd (token1 event))),
      Str (or0_toString toString (total_exchanged_usd (token1 event))),
      Str (or0_toString toString ETH2USD),
      Str ts]"

text \<open>
  What the persistence loop leaves behind: the store, the parameter lists for which
  \<^verbatim>\<open>client.query\<close> was evaluated, in order, and the errors passed to
  \<^verbatim>\<open>console.error\<close>.
\<close>

record 'db sink =
  store :: 'db
  attempted :: "param list list"
  logged :: "error list"

text \<open>Lines 474 to 478: one write, with its \<^verbatim>\<open>catch\<close>.\<close>

definition write_row :: "('db \<Rightarrow> statement \<Rightarrow> param list \<Rightarrow> error option \<times> 'db) \<Rightarrow>
    statement \<Rightarrow> param list \<Rightarrow> 'db sink \<Rightarrow> 'db sink" where
  "write_row query stmt vals s =
     (case query (store s) stmt vals of
        (None, db) \<Rightarrow> s\<lparr>store := db, attempted := attempted s @ [vals]\<rparr>
      | (Some err, db) \<Rightarrow>
          s\<lparr>store := db, attempted := attempted s @ [vals], logged := logged s @ [err]\<rparr>)"

text \<open>Lines 425 to 479: the persistence loop.\<close>

fun persist :: "'db services \<Rightarrow> decimal option \<Rightarrow> string \<Rightarrow> swapEvent list \<Rightarrow> 'db sink \<Rightarrow> 'db sink" where
  "persist srv ETH2USD ts [] s = s"
| "persist srv ETH2USD ts (event # rest) s =
     persist srv ETH2USD ts rest
       (write_row (client_query srv) insert_swap_event
          (row_values (Decimal_toString srv) ETH2USD ts event) s)"

text \<open>
  Lines 352 to 481: fillUSDAmounts. The result holds the final price map with the oracle
  calls made, the swap events with their USD fields, and what the persistence loop left
  behind; the early return of line 353 has created no price map.
\<close>

definition fillUSDAmounts :: "'db services \<Rightarrow> swapEvent list \<Rightarrow> decimal \<Rightarrow> 'db \<Rightarrow>
    error + pricing \<times> swapEvent list \<times> 'db sink" where
  "fillUSDAmounts srv swapEvents ETH2USD db =
     (if swapEvents = [] then
        Inr (\<lparr>usd = Map.empty, asked = []\<rparr>, [], \<lparr>store = db, attempted = [], logged = []\<rparr>)
      else
        (case price_batch (Moralis_getTokenPrice srv) swapEvents ETH2USD of
           Inl e \<Rightarrow> Inl e
         | Inr (st, events) \<Rightarrow>
             (case block_timestamp srv (blockNumber (hd swapEvents)) of
                Inl e \<Rightarrow> Inl e
              | Inr ts \<Rightarrow>
                  Inr (st, events,
                       persist srv (Some ETH2USD) ts events
                         \<lparr>store = db, attempted = [], logged = []\<rparr>))))"

section \<open>webhooksUtil.ts: the definition of fillUSDAmounts at lines 80 to 176\<close>

text \<open>
  The file holds a second definition of fillUSDAmounts, at lines 80 to 176, with three
  anchors, no oracle and no defaults in the persistence loop. Its traversal loop is the
  one of lines 372 to 382, so \<open>relax\<close> and \<open>traverse\<close> serve both. The constants of
  this definition carry the suffix \<open>_first\<close>.
\<close>

text \<open>Lines 84 to 87: every swap contributes its two edges.\<close>

fun build_graph_first :: "graph \<Rightarrow> swapEvent list \<Rightarrow> error + graph" where
  "build_graph_first graph [] = Inr graph"
| "build_graph_first graph (se # ses) =
     (case call_dividedBy (amount (token0 se)) (amount (token1 se)) of
        Inl e \<Rightarrow> Inl e
      | Inr r01 \<Rightarrow>
          (case call_dividedBy (amount (token1 se)) (amount (token0 se)) of
             Inl e \<Rightarrow> Inl e
           | Inr r10 \<Rightarrow>
               build_graph_first
                 (addEdge (addEdge graph (lsymbol (token0 se)) (lsymbol (token1 se)) r01)
                    (lsymbol (token1 se)) (lsymbol (token0 se)) r10)
                 ses))"

text \<open>Lines 89 to 95: the stack and the seeded prices.\<close>

definition stack0_first :: "symbol list" where
  "stack0_first = [Sym ''USDC'', Sym ''USDT'', Sym ''WETH'']"

definition seed_first :: "decimal \<Rightarrow> prices" where
  "seed_first ETH2USD =
     Map.empty(Sym ''WETH'' \<mapsto> ETH2USD, Sym ''USDT'' \<mapsto> Fin 1, Sym ''USDC'' \<mapsto> Fin 1)"

text \<open>Lines 109 to 116: the USD fields of each leg whose symbol has a price.\<close>

definition assign_usd_first :: "prices \<Rightarrow> swapEvent \<Rightarrow> error + swapEvent" where
  "assign_usd_first symbol2USD se =
     (case (case symbol2USD (lsymbol (token0 se)) of
              None \<Rightarrow> Inr se
            | Some v0 \<Rightarrow>
                (case call_times (Some v0) (amount (token0 se)) of
                   Inl e \<Rightarrow> Inl e
                 | Inr t0 \<Rightarrow>
                     Inr (se\<lparr>token0 := (token0 se)\<lparr>value_in_usd := Some v0,
                                                     total_exchanged_usd := Some t0\<rparr>\<rparr>))) of
        Inl e \<Rightarrow> Inl e
      | Inr se0 \<Rightarrow>
          (case symbol2USD (lsymbol (token1 se0)) of
             None \<Rightarrow> Inr se0
           | Some v1 \<Rightarrow>
               (case call_times (Some v1) (amount (token1 se0)) of
                  Inl e \<Rightarrow> Inl e
                | Inr t1 \<Rightarrow>
                    Inr (se0\<lparr>token1 := (token1 se0)\<lparr>value_in_usd := Some v1,
                                                     total_exchanged_usd := Some t1\<rparr>\<rparr>))))"

fun assign_loop_first :: "prices \<Rightarrow> swapEvent list \<Rightarrow> error + swapEvent list" where
  "assign_loop_first symbol2USD [] = Inr []"
| "assign_loop_first symbol2USD (se # ses) =
     (case assign_usd_first symbol2USD se of
        Inl e \<Rightarrow> Inl e
      | Inr se1 \<Rightarrow>
          (case assign_loop_first symbol2USD ses of
             Inl e \<Rightarrow> Inl e
           | Inr ses1 \<Rightarrow> Inr (se1 # ses1)))"

text \<open>\<^verbatim>\<open>x.toString()\<close> on a field that may be \<^verbatim>\<open>undefined\<close>.\<close>

definition call_toString :: "(decimal \<Rightarrow> string) \<Rightarrow> decimal option \<Rightarrow> error + string" where
  "call_toString toString x = (case x of None \<Rightarrow> Inl TypeError | Some d \<Rightarrow> Inr (toString d))"

text \<open>Lines 130 to 148: the statement, with 15 columns and the placeholders 1 to 15.\<close>

definition insert_swap_event_first :: statement where
  "insert_swap_event_first =
     \<lparr>columns = [''block_number'', ''block_hash'', ''transaction_hash'',
        ''token0_id'', ''token0_symbol'', ''token0_amount'', ''token0_value_in_usd'',
        ''token0_total_exchanged_usd'', ''token1_id'', ''token1_symbol'', ''token1_amount'',
        ''token1_value_in_usd'', ''token1_total_exchanged_usd'', ''eth_price_usd'', ''created_at''],
      placeholders = [1, 2, 3, 4, 5, 6, 7, 8, 9, 10, 11, 12, 13, 14, 15]\<rparr>"

text \<open>
  Lines 150 to 166: the parameters of one INSERT. The six calls of \<^verbatim>\<open>toString\<close> on
  the fields of the legs are made in the order of the array, before the \<^verbatim>\<open>try\<close>.
\<close>

definition row_values_first :: "(decimal \<Rightarrow> string) \<Rightarrow> decimal \<Rightarrow> swapEvent \<Rightarrow> error + param list" where
  "row_values_first toString ETH2USD event =
     (case call_toString toString (amount (token0 event)) of Inl e \<Rightarrow> Inl e | Inr a0 \<Rightarrow>
      case call_toString toString (value_in_usd (token0 event)) of Inl e \<Rightarrow> Inl e | Inr v0 \<Rightarrow>
      case call_toString toString (total_exchanged_usd (token0 event)) of Inl e \<Rightarrow> Inl e | Inr t0 \<Rightarrow>
      case call_toString toString (amount (token1 event)) of Inl e \<Rightarrow> Inl e | Inr a1 \<Rightarrow>
      case call_toString toString (value_in_usd (token1 event)) of Inl e \<Rightarrow> Inl e | Inr v1 \<Rightarrow>
      case call_toString toString (total_exchanged_usd (token1 event)) of Inl e \<Rightarrow> Inl e | Inr t1 \<Rightarrow>
        Inr [Num (blockNumber event),
             Str (blockHash event),
             Str (transactionHash event),
             opt_param (id' (token0 event)),
             symbol_param (lsymbol (token0 event)),
             Str a0, Str v0, Str t0,
             opt_param (id' (token1 event)),
             symbol_param (lsymbol (token1 event)),
             Str a1, Str v1, Str t1,
             Str (toString ETH2USD),
             opt_param (timestamp event)])"

text \<open>
  Lines 120 to 174: the persistence loop. An exception raised while the parameters are
  built leaves the loop; the result holds it together with what the loop had left behind
  by then.
\<close>

fun persist_first :: "'db services \<Rightarrow> decimal \<Rightarrow> swapEvent list \<Rightarrow> 'db sink \<Rightarrow> error option \<times> 'db sink" where
  "persist_first srv ETH2USD [] s = (None, s)"
| "persist_first srv ETH2USD (event # rest) s =
     (case row_values_first (Decimal_toString srv) ETH2USD event of
        Inl e \<Rightarrow> (Some e, s)
      | Inr vals \<Rightarrow>
          persist_first srv ETH2USD rest
            (write_row (client_query srv) insert_swap_event_first vals s))"

text \<open>Lines 80 to 176.\<close>

definition fillUSDAmounts_first :: "'db services \<Rightarrow> swapEvent list \<Rightarrow> decimal \<Rightarrow> 'db \<Rightarrow>
    error + prices \<times> swapEvent list \<times> 'db sink" where
  "fillUSDAmounts_first srv swapEvents ETH2USD db =
     (if swapEvents = [] then Inr (Map.empty, [], \<lparr>store = db, attempted = [], logged = []\<rparr>)
      else
        (case build_graph_first [] swapEvents of
           Inl e \<Rightarrow> Inl e
         | Inr graph \<Rightarrow>
             (case traverse graph stack0_first (seed_first ETH2USD) of
                Inl e \<Rightarrow> Inl e
              | Inr symbol2USD \<Rightarrow>
                  (case assign_loop_first symbol2USD swapEvents of
                     Inl e \<Rightarrow> Inl e
                   | Inr events \<Rightarrow>
                       (case persist_first srv ETH2USD events
                               \<lparr>store = db, attempted = [], logged = []\<rparr> of
                          (Some e, s) \<Rightarrow> Inl e
                        | (None, s) \<Rightarrow> Inr (symbol2USD, events, s))))))"

section \<open>index.ts: the aggregator\<close>

text \<open>
  The collaborators of parseSwapEvents: the answer of the price request of
  getEthereumUSD (\<open>Inr None\<close> when the answer holds no usable \<^verbatim>\<open>priceUsd\<close>), the two
  uses of \<^verbatim>\<open>iface.parseLog\<close> with the amounts they decode (\<open>Inr None\<close> when the
  result is \<^verbatim>\<open>null\<close>; the amounts of the second are \<^verbatim>\<open>amount0In\<close>, \<^verbatim>\<open>amount1In\<close>,
  \<^verbatim>\<open>amount0Out\<close>, \<^verbatim>\<open>amount1Out\<close>), the two contract calls of getPairTokenSymbols,
  and the metadata request with the token it describes.
\<close>

record providers =
  coincap_priceUsd :: "error + decimal option"
  parseLog_v3 :: "log \<Rightarrow> error + (int \<times> int) option"
  parseLog_v2 :: "log \<Rightarrow> error + (int \<times> int \<times> int \<times> int) option"
  pair_calls :: "string \<Rightarrow> error + string \<times> string"
  getTokenMetadata :: "string \<Rightarrow> error + Token"

text \<open>webhooksUtil.ts, lines 320 to 324.\<close>

definition getEthereumUSD :: "providers \<Rightarrow> error + decimal" where
  "getEthereumUSD prov =
     (case coincap_priceUsd prov of
        Inl e \<Rightarrow> Inl e
      | Inr None \<Rightarrow> Inl DecimalError
      | Inr (Some d) \<Rightarrow> Inr d)"

text \<open>webhooksUtil.ts, lines 484 to 527: \<^verbatim>\<open>null\<close> when a contract call fails.\<close>

definition getPairTokenSymbols :: "providers \<Rightarrow> string \<Rightarrow> (string \<times> string) option" where
  "getPairTokenSymbols prov pairAddress =
     (case pair_calls prov pairAddress of Inl e \<Rightarrow> None | Inr p \<Rightarrow> Some p)"

definition UNISWAP_V3_SWAP_EVENT :: string where
  "UNISWAP_V3_SWAP_EVENT = ''0xc42079f94a6350d7e6235f29174924f928cc2ac818eb64fed8004e115fbcca67''"

definition UNISWAP_V2_SWAP_EVENT :: string where
  "UNISWAP_V2_SWAP_EVENT = ''0xd78ad95fa46c994b6551d0da85fc275fe613ce37657fb8d5e3d130840159d822''"

text \<open>
  Lines 70 to 96. \<^verbatim>\<open>amount0\<close> and \<^verbatim>\<open>amount1\<close> are declared with \<^verbatim>\<open>var\<close> and without
  a value: a log of neither kind leaves them as the previous iteration set them.
\<close>

definition swap_amounts :: "providers \<Rightarrow> log \<Rightarrow> int option \<times> int option \<Rightarrow>
    error + int option \<times> int option" where
  "swap_amounts prov lg amounts =
     (case topics lg of
        [] \<Rightarrow> Inr amounts
      | t # ts \<Rightarrow>
          if t = UNISWAP_V3_SWAP_EVENT then
            (case parseLog_v3 prov lg of
               Inl e \<Rightarrow> Inl e
             | Inr None \<Rightarrow> Inr (None, None)
             | Inr (Some (amount0, amount1)) \<Rightarrow> Inr (Some amount0, Some amount1))
          else if t = UNISWAP_V2_SWAP_EVENT then
            (case parseLog_v2 prov lg of
               Inl e \<Rightarrow> Inl e
             | Inr None \<Rightarrow> Inr (None, None)
             | Inr (Some (amount0In, amount1In, amount0Out, amount1Out)) \<Rightarrow>
                 if amount0In = 0 then Inr (Some (- amount0Out), Some amount1In)
                 else Inr (Some amount0In, Some amount1Out))
          else Inr amounts)"

text \<open>
  What parseSwapEvents keeps between the iterations of its loop: the two amounts, the
  two caches, and the logs already given their legs.
\<close>

record decoding =
  amounts :: "int option \<times> int option"
  pairTokens :: "string \<rightharpoonup> PairToken"
  tokens :: "string \<rightharpoonup> Token"
  decoded :: "swapEvent list"

text \<open>Lines 105 to 116, and 117 to 128: a token from the cache or from the provider.\<close>

definition resolve_token :: "providers \<Rightarrow> string \<Rightarrow> (string \<rightharpoonup> Token) \<Rightarrow>
    (error + Token) \<times> (string \<rightharpoonup> Token)" where
  "resolve_token prov a toks =
     (case toks a of
        Some token \<Rightarrow> (Inr token, toks)
      | None \<Rightarrow>
          (case getTokenMetadata prov a of
             Inl e \<Rightarrow> (Inl e, toks)
           | Inr token \<Rightarrow> (Inr token, toks(a \<mapsto> token))))"

text \<open>
  Lines 98 to 130. \<^verbatim>\<open>symbols.token0\<close> is a TypeError when getPairTokenSymbols
  returned \<^verbatim>\<open>null\<close>. The caches are returned as the exception, if any, leaves them.
\<close>

definition resolve_pair :: "providers \<Rightarrow> string \<Rightarrow> decoding \<Rightarrow> (error + PairToken) \<times> decoding" where
  "resolve_pair prov a d =
     (case pairTokens d a of
        Some pairToken \<Rightarrow> (Inr pairToken, d)
      | None \<Rightarrow>
          (case getPairTokenSymbols prov a of
             None \<Rightarrow> (Inl TypeError, d)
           | Some (t0, t1) \<Rightarrow>
               (case resolve_token prov t0 (tokens d) of
                  (Inl e, toks0) \<Rightarrow> (Inl e, d\<lparr>tokens := toks0\<rparr>)
                | (Inr tok0, toks0) \<Rightarrow>
                    (case resolve_token prov t1 toks0 of
                       (Inl e, toks1) \<Rightarrow> (Inl e, d\<lparr>tokens := toks1\<rparr>)
                     | (Inr tok1, toks1) \<Rightarrow>
                         (let pairToken = \<lparr>pair_token0 = tok0, pair_token1 = tok1\<rparr>
                          in (Inr pairToken,
                              d\<lparr>tokens := toks1,
                                pairTokens := (pairTokens d)(a \<mapsto> pairToken)\<rparr>))))))"

text \<open>Lines 69 to 153: one iteration, and the loop, which an exception leaves.\<close>

definition parse_log :: "providers \<Rightarrow> log \<Rightarrow> decoding \<Rightarrow> error option \<times> decoding" where
  "parse_log prov lg d =
     (case swap_amounts prov lg (amounts d) of
        Inl e \<Rightarrow> (Some e, d)
      | Inr am \<Rightarrow>
          (case resolve_pair prov (address lg) (d\<lparr>amounts := am\<rparr>) of
             (Inl e, d1) \<Rightarrow> (Some e, d1)
           | (Inr pairToken, d1) \<Rightarrow>
               (case decode_legs pairToken (fst am) (snd am) of
                  Inl e \<Rightarrow> (Some e, d1)
                | Inr (l0, l1) \<Rightarrow>
                    (None, d1\<lparr>decoded := decoded d1 @
                                 [log.extend lg (swapEvent.fields l0 l1)]\<rparr>))))"

fun parse_logs :: "providers \<Rightarrow> log list \<Rightarrow> decoding \<Rightarrow> error option \<times> decoding" where
  "parse_logs prov [] d = (None, d)"
| "parse_logs prov (lg # lgs) d =
     (case parse_log prov lg d of
        (Some e, d1) \<Rightarrow> (Some e, d1)
      | (None, d1) \<Rightarrow> parse_logs prov lgs d1)"

text \<open>
  The variables of \<^verbatim>\<open>main\<close> that the handlers share. \<open>timer\<close> tells whether a timeout
  is pending.
\<close>

record state =
  logs :: "log list"
  pair_cache :: "string \<rightharpoonup> PairToken"
  token_cache :: "string \<rightharpoonup> Token"
  timer :: bool
  PARSING :: bool
  ARRIVING :: bool

text \<open>
  Lines 59 to 159: parseSwapEvents. The result is the exception that ended the cycle, if
  any, and the shared variables as the cycle leaves them. The call of line 155 passes
  two arguments, the logs and the price: in fillUSDAmounts \<^verbatim>\<open>client\<close> and \<^verbatim>\<open>web3\<close>
  are \<^verbatim>\<open>undefined\<close>. The function called is the one of lines 352 to 481: of two
  declarations of a name JavaScript keeps the later. \<open>srv\<close> gives what the module
  works with and \<open>db\<close> is the store as the cycle finds it.
\<close>

definition parseSwapEvents :: "providers \<Rightarrow> 'db services \<Rightarrow> 'db \<Rightarrow> state \<Rightarrow> error option \<times> state" where
  "parseSwapEvents prov srv db s =
     (let s1 = s\<lparr>PARSING := True, ARRIVING := False\<rparr>
      in case getEthereumUSD prov of
           Inl e \<Rightarrow> (Some e, s1)
         | Inr ETH_LATEST_PRICE \<Rightarrow>
             (case parse_logs prov (logs s1)
                     \<lparr>amounts = (None, None), pairTokens = pair_cache s1,
                      tokens = token_cache s1, decoded = []\<rparr> of
                (Some e, d) \<Rightarrow> (Some e, s1\<lparr>pair_cache := pairTokens d, token_cache := tokens d\<rparr>)
              | (None, d) \<Rightarrow>
                  (let s2 = s1\<lparr>pair_cache := pairTokens d, token_cache := tokens d\<rparr>
                   in case fillUSDAmounts (srv\<lparr>web3 := None, client := None\<rparr>) (decoded d)
                             ETH_LATEST_PRICE db of
                        Inl e \<Rightarrow> (Some e, s2)
                      | Inr r \<Rightarrow> (None, s2\<lparr>PARSING := False\<rparr>))))"

text \<open>Lines 170 to 186: the handler of an arriving log.\<close>

definition on_log :: "log \<Rightarrow> state \<Rightarrow> state" where
  "on_log lg s =
     (if PARSING s then s
      else
        (let s1 = (if \<not> ARRIVING s then s\<lparr>logs := [], ARRIVING := True\<rparr> else s)
         in s1\<lparr>timer := True, logs := logs s1 @ [lg]\<rparr>))"

section \<open>Notions used to state the properties\<close>

text \<open>
  The edge relation of a graph: \<open>(a, b)\<close> when the adjacency list of \<open>a\<close> has an entry
  for \<open>b\<close>. Two symbols are connected by batch edges when they are related by its
  reflexive transitive closure.
\<close>

definition edges :: "graph \<Rightarrow> (symbol \<times> symbol) set" where
  "edges g = {(a, b). \<exists>es. map_of g a = Some es \<and> b \<in> esymbol ` set es}"

text \<open>
  \<open>path g a v b w\<close>: starting at \<open>a\<close> with price \<open>v\<close> and multiplying by the ratio of
  each edge followed, in the order of the path, one arrives at \<open>b\<close> with price \<open>w\<close>.
\<close>

inductive path :: "graph \<Rightarrow> symbol \<Rightarrow> decimal \<Rightarrow> symbol \<Rightarrow> decimal \<Rightarrow> bool"
  for g :: graph and a :: symbol and v :: decimal where
  path_start: "path g a v a v"
| path_edge: "path g a v b w \<Longrightarrow> map_of g b = Some es \<Longrightarrow> e \<in> set es \<Longrightarrow>
     path g a v (esymbol e) (times w (ratio e))"

text \<open>
  The edges that the swaps of a batch contribute: both directions between the two leg
  symbols of every swap whose symbols are both truthy.
\<close>

definition swap_edges :: "swapEvent list \<Rightarrow> (symbol \<times> symbol) set" where
  "swap_edges ses =
     (\<Union>se \<in> set ses.
        if truthy (lsymbol (token0 se)) \<and> truthy (lsymbol (token1 se))
        then {(lsymbol (token0 se), lsymbol (token1 se)), (lsymbol (token1 se), lsymbol (token0 se))}
        else {})"

text \<open>
  \<open>trades se s t r\<close>: the swap is between \<open>s\<close> and \<open>t\<close>, in either leg order, and the
  edge from \<open>s\<close> to \<open>t\<close> that it contributes has ratio \<open>r\<close>.
\<close>

definition trades :: "swapEvent \<Rightarrow> symbol \<Rightarrow> symbol \<Rightarrow> decimal \<Rightarrow> bool" where
  "trades se s t r =
     (lsymbol (token0 se) = s \<and> lsymbol (token1 se) = t \<and>
        call_dividedBy (amount (token0 se)) (amount (token1 se)) = Inr r
      \<or> lsymbol (token0 se) = t \<and> lsymbol (token1 se) = s \<and>
        call_dividedBy (amount (token1 se)) (amount (token0 se)) = Inr r)"

text \<open>
  Concrete inputs for the examples: a leg with an id, a symbol and an amount, a swap
  event of two legs, a stand-in for \<^verbatim>\<open>toString\<close> of decimal.js that prints zero as
  \<^verbatim>\<open>0\<close>, and collaborators whose store counts the queries it has received and
  rejects the second one.
\<close>

definition leg_of :: "string \<Rightarrow> string \<Rightarrow> rat \<Rightarrow> leg" where
  "leg_of i s a = \<lparr>id' = Some i, lsymbol = Sym s, amount = Some (Fin a), value_in_usd = None,
     total_exchanged_usd = None\<rparr>"

definition swap_of :: "leg \<Rightarrow> leg \<Rightarrow> swapEvent" where
  "swap_of l0 l1 = \<lparr>address = ''0xpool'', topics = [], blockNumber = 1, blockHash = ''0xb'',
     transactionHash = ''0xt'', fromAddress = None, timestamp = None, token0 = l0, token1 = l1\<rparr>"

definition show_dec :: "decimal \<Rightarrow> string" where
  "show_dec d = (if d = Fin 0 then ''0'' else ''1'')"

definition services_of :: "(string option \<Rightarrow> error + decimal) \<Rightarrow> nat services" where
  "services_of m = \<lparr>Moralis_getTokenPrice = m,
     Decimal_toString = show_dec,
     web3 = Some (\<lambda>n. Inr ''2024-01-01T00:00:00.000Z''),
     client = Some (\<lambda>db stmt vals. (if db = 1 then Some Rejected else None, Suc db))\<rparr>"

text \<open>
  A store that checks an INSERT before it writes, the way PostgreSQL does: the statement
  must give an expression for every column it names, and the query as many parameters
  as the statement has placeholders. A row that passes is appended to the store. The
  collaborators of the examples, with this store.
\<close>

definition checked_insert :: "param list list \<Rightarrow> statement \<Rightarrow> param list \<Rightarrow> error option \<times> param list list" where
  "checked_insert db stmt vals =
     (if length (columns stmt) = length (placeholders stmt) \<and> length vals = length (placeholders stmt)
      then (None, db @ [vals]) else (Some Rejected, db))"

definition checking_services :: "(string option \<Rightarrow> error + decimal) \<Rightarrow> param list list services" where
  "checking_services m = \<lparr>Moralis_getTokenPrice = m,
     Decimal_toString = show_dec,
     web3 = Some (\<lambda>n. Inr ''2024-01-01T00:00:00.000Z''),
     client = Some checked_insert\<rparr>"

text \<open>An oracle that knows two token ids, for the examples.\<close>

definition oracle_5_7 :: "string option \<Rightarrow> error + decimal" where
  "oracle_5_7 i = (if i = Some ''0xf'' then Inr (Fin 5) else if i = Some ''0xb'' then Inr (Fin 7)
                   else Inl Rejected)"

text \<open>
  Inputs for the examples of the aggregator: providers whose price request is rejected,
  providers that answer, a log of the first swap kind, and the state before any log has
  arrived.
\<close>

definition offline_providers :: providers where
  "offline_providers = \<lparr>coincap_priceUsd = Inl Rejected,
     parseLog_v3 = (\<lambda>lg. Inr (Some (2000000, - 5))),
     parseLog_v2 = (\<lambda>lg. Inr None),
     pair_calls = (\<lambda>a. Inr (''0xusdc'', ''0xweth'')),
     getTokenMetadata = (\<lambda>a. Inr \<lparr>tsymbol = Sym a, tdecimal = Some 6\<rparr>)\<rparr>"

definition swap_log :: "nat \<Rightarrow> log" where
  "swap_log n = \<lparr>address = ''0xpool'', topics = [UNISWAP_V3_SWAP_EVENT], blockNumber = n,
     blockHash = ''0xb'', transactionHash = ''0xt'', fromAddress = None, timestamp = None\<rparr>"

definition idle :: state where
  "idle = \<lparr>logs = [], pair_cache = Map.empty, token_cache = Map.empty, timer = False,
     PARSING = False, ARRIVING = False\<rparr>"

definition online_providers :: providers where
  "online_providers = \<lparr>coincap_priceUsd = Inr (Some (Fin 3000)),
     parseLog_v3 = (\<lambda>lg. Inr (Some (2000000, - 5))),
     parseLog_v2 = (\<lambda>lg. Inr None),
     pair_calls = (\<lambda>a. Inr (''0xusdc'', ''0xweth'')),
     getTokenMetadata = (\<lambda>a. if a = ''0xusdc'' then Inr \<lparr>tsymbol = Sym ''USDC'', tdecimal = Some 6\<rparr>
                              else Inr \<lparr>tsymbol = Sym ''WETH'', tdecimal = None\<rparr>)\<rparr>"

section \<open>Rounding: basic facts\<close>

text \<open>
  The exponent is the power of ten of the leading digit, and rounding gives a multiple
  of the unit of the twentieth significant digit, at most half that unit away.
\<close>

lemma digits_pos: "0 < digits n"
  by (subst digits.simps) simp

lemma digits_bounds: "0 < n \<Longrightarrow> 10 ^ (digits n - 1) \<le> n \<and> n < 10 ^ digits n"
proof (induction n rule: digits.induct)
  case (1 n)
  show ?case
  proof (cases "n < 10")
    case True
    with "1.prems" show ?thesis by (simp add: digits.simps)
  next
    case False
    then have pos: "0 < n div 10" by (simp add: div_greater_zero_iff)
    from "1.IH" [OF False pos] have lo: "10 ^ (digits (n div 10) - 1) \<le> n div 10"
      and hi: "n div 10 < 10 ^ digits (n div 10)" by simp_all
    have d: "digits n = Suc (digits (n div 10))" using False by (simp add: digits.simps)
    from digits_pos [of "n div 10"] have s: "Suc (digits (n div 10) - 1) = digits (n div 10)" by simp
    from lo have "10 * 10 ^ (digits (n div 10) - 1) \<le> 10 * (n div 10)" by simp
    also have "\<dots> \<le> n" by simp
    finally have "10 ^ digits (n div 10) \<le> n" using s by (metis power_Suc)
    moreover from hi have "n < 10 * 10 ^ digits (n div 10)"
      by (simp add: div_less_iff_less_mult mult.commute)
    ultimately show ?thesis using d by simp
  qed
qed

lemma pow10_pos: "0 < pow10 e"
  by (simp add: pow10_def)

lemma of_nat_eq_of_int: "int m = k \<Longrightarrow> rat_of_nat m = of_int k"
  by auto

lemma exponent_bounds:
  assumes "q \<noteq> 0"
  shows "pow10 (exponent q) \<le> \<bar>q\<bar> \<and> \<bar>q\<bar> < pow10 (exponent q + 1)"
proof (cases "1 \<le> \<bar>q\<bar>")
  case True
  define m where "m = nat \<lfloor>\<bar>q\<bar>\<rfloor>"
  from True have fl: "1 \<le> \<lfloor>\<bar>q\<bar>\<rfloor>" by simp
  then have m: "0 < m" "int m = \<lfloor>\<bar>q\<bar>\<rfloor>" "int (Suc m) = \<lfloor>\<bar>q\<bar>\<rfloor> + 1" by (simp_all add: m_def)
  from digits_bounds [OF m(1)] have lo: "10 ^ (digits m - 1) \<le> m" and hi: "Suc m \<le> 10 ^ digits m"
    by simp_all
  have e: "exponent q = int (digits m) - 1" using True by (simp add: exponent_def m_def)
  from digits_pos [of m] have e0: "0 \<le> int (digits m) - 1" "nat (int (digits m) - 1) = digits m - 1"
    "nat (int (digits m) - 1 + 1) = digits m" by simp_all
  have p1: "pow10 (exponent q) = rat_of_nat (10 ^ (digits m - 1))"
    using e e0 by (simp add: pow10_def)
  have p2: "pow10 (exponent q + 1) = rat_of_nat (10 ^ digits m)"
    using e e0 by (simp add: pow10_def)
  have "rat_of_nat (10 ^ (digits m - 1)) \<le> rat_of_nat m" using lo by (simp only: of_nat_le_iff)
  also have "rat_of_nat m = of_int \<lfloor>\<bar>q\<bar>\<rfloor>" using m(2) by (rule of_nat_eq_of_int)
  also have "\<dots> \<le> \<bar>q\<bar>" by (rule of_int_floor_le)
  finally have 1: "pow10 (exponent q) \<le> \<bar>q\<bar>" unfolding p1 .
  have "\<bar>q\<bar> < of_int (\<lfloor>\<bar>q\<bar>\<rfloor> + 1)" by (rule floor_correct [THEN conjunct2])
  also have "of_int (\<lfloor>\<bar>q\<bar>\<rfloor> + 1) = rat_of_nat (Suc m)"
    using m(3) by (rule of_nat_eq_of_int [symmetric])
  also have "\<dots> \<le> rat_of_nat (10 ^ digits m)" using hi by (simp only: of_nat_le_iff)
  finally have 2: "\<bar>q\<bar> < pow10 (exponent q + 1)" unfolding p2 .
  from 1 2 show ?thesis ..
next
  case False
  with assms have q: "0 < \<bar>q\<bar>" "\<bar>q\<bar> < 1" by simp_all
  define t where "t = 1 / \<bar>q\<bar>"
  from q have t: "1 < t" by (simp add: t_def)
  define m where "m = nat (\<lceil>t\<rceil> - 1)"
  from t have "1 < \<lceil>t\<rceil>" by (simp add: less_ceiling_iff)
  then have m: "0 < m" "int m = \<lceil>t\<rceil> - 1" "int (Suc m) = \<lceil>t\<rceil>" by (simp_all add: m_def)
  from digits_bounds [OF m(1)] have lo: "10 ^ (digits m - 1) \<le> m" and hi: "Suc m \<le> 10 ^ digits m"
    by simp_all
  have e: "exponent q = - int (digits m)" using False by (simp add: exponent_def m_def t_def)
  have lt: "rat_of_nat m < t"
  proof -
    have "rat_of_nat m = of_int (\<lceil>t\<rceil> - 1)" using m(2) by (rule of_nat_eq_of_int)
    also have "\<dots> < t" using ceiling_correct [of t] by simp
    finally show ?thesis .
  qed
  have le: "t \<le> rat_of_nat (10 ^ digits m)"
  proof -
    have "t \<le> of_int \<lceil>t\<rceil>" by (rule le_of_int_ceiling)
    also have "of_int \<lceil>t\<rceil> = rat_of_nat (Suc m)"
      using m(3) by (rule of_nat_eq_of_int [symmetric])
    also have "\<dots> \<le> rat_of_nat (10 ^ digits m)" using hi by (simp only: of_nat_le_iff)
    finally show ?thesis .
  qed
  have tq: "\<bar>q\<bar> = 1 / t" using q by (simp add: t_def)
  from t have tpos: "0 < t" by simp
  have p1: "pow10 (exponent q) = 1 / rat_of_nat (10 ^ digits m)"
    using e digits_pos [of m] by (simp add: pow10_def)
  have p2: "pow10 (exponent q + 1) = 1 / rat_of_nat (10 ^ (digits m - 1))"
  proof (cases "digits m = 1")
    case True
    with e show ?thesis by (simp add: pow10_def)
  next
    case False
    with digits_pos [of m] have "1 < digits m" by simp
    with e have "\<not> 0 \<le> exponent q + 1" "nat (- (exponent q + 1)) = digits m - 1" by simp_all
    then show ?thesis by (simp add: pow10_def)
  qed
  have 1: "pow10 (exponent q) \<le> \<bar>q\<bar>"
    unfolding p1 tq using le tpos by (intro divide_left_mono) simp_all
  have "rat_of_nat (10 ^ (digits m - 1)) \<le> rat_of_nat m" using lo by (simp only: of_nat_le_iff)
  then have lt': "rat_of_nat (10 ^ (digits m - 1)) < t" using lt by (rule le_less_trans)
  have 2: "\<bar>q\<bar> < pow10 (exponent q + 1)"
    unfolding p2 tq using lt' tpos by (intro divide_strict_left_mono) simp_all
  from 1 2 show ?thesis ..
qed

lemma round_half:
  fixes x :: rat
  shows "\<bar>of_int \<lfloor>x + 1 / 2\<rfloor> - x\<bar> \<le> 1 / 2"
proof -
  have "of_int \<lfloor>x + 1 / 2\<rfloor> \<le> x + 1 / 2" by (rule of_int_floor_le)
  moreover have "x + 1 / 2 < of_int \<lfloor>x + 1 / 2\<rfloor> + 1" using floor_correct [of "x + 1 / 2"] by simp
  ultimately show ?thesis unfolding abs_le_iff by linarith
qed

lemma pow10_diff: "pow10 (a - b) = pow10 a / pow10 b"
proof -
  have "pow10 e = 10 powi e" for e
    by (simp add: pow10_def power_int_def field_simps)
  then show ?thesis by (simp add: power_int_diff)
qed

lemma round20_error:
  assumes "q \<noteq> 0"
  shows "\<bar>round20 q - q\<bar> \<le> pow10 (exponent q - 19) / 2"
proof -
  define s where "s = pow10 (19 - exponent q)"
  have s: "0 < s" by (simp add: s_def pow10_pos)
  define x where "x = \<bar>q\<bar> * s"
  define n where "n = rat_of_int \<lfloor>x + 1 / 2\<rfloor>"
  have r: "round20 q = sgn q * n / s"
    using assms by (simp add: round20_def s_def x_def n_def)
  have "sgn q * x / s = sgn q * \<bar>q\<bar>" using s by (simp add: x_def)
  also have "\<dots> = q" by (rule sgn_mult_abs)
  finally have "q = sgn q * x / s" by simp
  with r have "round20 q - q = sgn q * n / s - sgn q * x / s" by simp
  also have "\<dots> = sgn q * ((n - x) / s)" by (simp add: algebra_simps diff_divide_distrib)
  finally have "\<bar>round20 q - q\<bar> = \<bar>sgn q\<bar> * \<bar>(n - x) / s\<bar>" by (simp only: abs_mult)
  also have "\<bar>sgn q\<bar> = 1" using assms by (simp add: abs_sgn_eq)
  also have "1 * \<bar>(n - x) / s\<bar> = \<bar>n - x\<bar> / s" using s by simp
  also have "\<dots> \<le> (1 / 2) / s" using round_half [of x] s unfolding n_def by (rule divide_right_mono [OF _ less_imp_le])
  also have "(1 / 2) / s = (1 / s) / 2" by simp
  also have "1 / s = pow10 (exponent q - 19)"
  proof -
    have "pow10 (exponent q - 19) = pow10 (0 - (19 - exponent q))" by simp
    also have "\<dots> = pow10 0 / s" unfolding s_def by (rule pow10_diff)
    finally show ?thesis by (simp add: pow10_def)
  qed
  finally show ?thesis .
qed

lemma round20_digits:
  assumes "q \<noteq> 0"
  shows "\<exists>n. round20 q = of_int n * pow10 (exponent q - 19)"
proof -
  have "pow10 (exponent q - 19) = pow10 (0 - (19 - exponent q))" by simp
  also have "\<dots> = pow10 0 / pow10 (19 - exponent q)" by (rule pow10_diff)
  finally have "pow10 (exponent q - 19) = 1 / pow10 (19 - exponent q)" by (simp add: pow10_def)
  then have "round20 q =
      of_int ((if 0 < q then 1 else - 1) *
              \<lfloor>\<bar>q\<bar> * pow10 (19 - exponent q) + 1 / 2\<rfloor>) * pow10 (exponent q - 19)"
    using assms by (simp add: round20_def sgn_if)
  then show ?thesis ..
qed

text \<open>
  A natural number below \<open>10 ^ 20\<close> has at most 20 digits and is its own rounding, so
  products and quotients that are such numbers are exact.
\<close>

lemma digits_le: "n < 10 ^ k \<Longrightarrow> 0 < k \<Longrightarrow> digits n \<le> k"
proof (induction n arbitrary: k rule: digits.induct)
  case (1 n)
  show ?case
  proof (cases "n < 10")
    case True
    with "1.prems" show ?thesis by (simp add: digits.simps)
  next
    case False
    from "1.prems" obtain j where k: "k = Suc j" by (cases k) auto
    with False "1.prems" have "0 < j" by (cases j) auto
    moreover from "1.prems" k have "n div 10 < 10 ^ j" by (simp add: div_less_iff_less_mult mult.commute)
    ultimately have "digits (n div 10) \<le> j" using "1.IH" [OF False] by blast
    with False k show ?thesis by (simp add: digits.simps)
  qed
qed

lemma round20_of_nat:
  assumes "n < 10 ^ 20"
  shows "round20 (of_nat n) = of_nat n"
proof (cases "n = 0")
  case True
  then show ?thesis by (simp add: round20_def)
next
  case False
  then have pos: "(0::rat) < of_nat n" and ge: "(1::rat) \<le> \<bar>of_nat n\<bar>" by simp_all
  from digits_le [OF assms] digits_pos [of n] have d: "digits n \<le> 20" "0 < digits n" by simp_all
  define k where "k = 20 - digits n"
  have "exponent (of_nat n) = int (digits (nat \<lfloor>\<bar>rat_of_nat n\<bar>\<rfloor>)) - 1"
    unfolding exponent_def using ge by (rule if_P)
  also have "nat \<lfloor>\<bar>rat_of_nat n\<bar>\<rfloor> = n" by simp
  finally have e: "19 - exponent (of_nat n) = int k" using d by (simp add: k_def)
  have p: "pow10 (int k) = 10 ^ k" by (simp add: pow10_def)
  have f: "\<lfloor>\<bar>rat_of_nat n\<bar> * 10 ^ k + 1 / 2\<rfloor> = int (n * 10 ^ k)"
    by (rule floor_unique) simp_all
  have "round20 (of_nat n) =
      sgn (rat_of_nat n) * of_int \<lfloor>\<bar>rat_of_nat n\<bar> * pow10 (19 - exponent (of_nat n)) + 1 / 2\<rfloor>
        / pow10 (19 - exponent (of_nat n))"
    unfolding round20_def using False by simp
  also have "\<dots> = sgn (rat_of_nat n) * of_int (int (n * 10 ^ k)) / 10 ^ k"
    unfolding e p f ..
  also have "\<dots> = of_nat n" using pos by simp
  finally show ?thesis .
qed

lemma round20_numeral [simp]:
  "numeral k < (10::nat) ^ 20 \<Longrightarrow> round20 (numeral k) = numeral k"
  using round20_of_nat [of "numeral k"] by simp

lemma round20_0 [simp]: "round20 0 = 0"
  by (simp add: round20_def)

lemma round20_1 [simp]: "round20 1 = 1"
  using round20_of_nat [of 1] by simp

lemma floor_rat_numeral: "\<lfloor>(numeral a :: rat) / numeral b\<rfloor> = numeral a div numeral b"
  using floor_divide_of_int_eq [of "numeral a" "numeral b", where ?'a = rat] by simp

lemma ceiling_rat_numeral: "\<lceil>(numeral a :: rat) / numeral b\<rceil> = - (- numeral a div numeral b)"
  unfolding ceiling_def using floor_divide_of_int_eq [of "- numeral a" "numeral b", where ?'a = rat]
  by simp

lemmas round20_eval = round20_def exponent_def pow10_def digits.simps floor_rat_numeral
  ceiling_rat_numeral

lemma round20_values [simp]:
  "round20 (1 / 2) = 1 / 2" "round20 (1 / 4) = 1 / 4" "round20 (1 / 5) = 1 / 5"
  "round20 (5 / 4) = 5 / 4"
  by (simp_all add: round20_eval)

text \<open>
  Two results that are not exact: a third, and a product with 21 significant digits.
\<close>

lemma round20_third: "dividedBy (Fin 1) (Fin 3) = Fin (33333333333333333333 / 100000000000000000000)"
  by (simp add: round20_eval)

lemma round20_product:
  "times (Fin (370370367037037036703 / 1000000000000000)) (Fin 1) =
     Fin (3703703670370370367 / 10000000000000)"
  by (simp add: round20_eval)

section \<open>The traversal: basic facts\<close>

text \<open>
  One pass over an adjacency list only adds prices, for the symbols it pushes; a
  traversal preserves any property that every pop preserves. From this: a traversal
  only extends the price map, it closes the map under the edges, every new price is the
  price of a stack element multiplied along a path, and a traversal started on a stack
  of priced symbols returns.
\<close>

lemma relax_mono: "relax s es (p, st) = Inr (p', st') \<Longrightarrow> p \<subseteq>\<^sub>m p'"
proof (induction es arbitrary: p st)
  case Nil
  then show ?case by simp
next
  case (Cons r rs)
  show ?case
  proof (cases "p (esymbol r) = None")
    case True
    with Cons.prems obtain v where
      rec: "relax s rs (p(esymbol r \<mapsto> v), st @ [esymbol r]) = Inr (p', st')"
      by (auto split: sum.splits)
    have "p \<subseteq>\<^sub>m p(esymbol r \<mapsto> v)" using True by (auto simp: map_le_def)
    with Cons.IH [OF rec] show ?thesis by (rule map_le_trans [rotated])
  next
    case False
    with Cons.prems Cons.IH show ?thesis by simp
  qed
qed

lemma relax_stack:
  "relax s es (p, st) = Inr (p', st') \<Longrightarrow> \<exists>new. st' = st @ new \<and> set new = dom p' - dom p"
proof (induction es arbitrary: p st)
  case Nil
  then show ?case by simp
next
  case (Cons r rs)
  show ?case
  proof (cases "p (esymbol r) = None")
    case True
    with Cons.prems obtain v where
      rec: "relax s rs (p(esymbol r \<mapsto> v), st @ [esymbol r]) = Inr (p', st')"
      by (auto split: sum.splits)
    from Cons.IH [OF rec] obtain new where
      n: "st' = (st @ [esymbol r]) @ new" "set new = dom p' - dom (p(esymbol r \<mapsto> v))"
      by blast
    from relax_dom [OF rec] have "esymbol r \<in> dom p'" by (auto simp del: fun_upd_apply)
    with n True have "st' = st @ (esymbol r # new) \<and> set (esymbol r # new) = dom p' - dom p"
      by (auto simp del: fun_upd_apply)
    then show ?thesis by blast
  next
    case False
    with Cons.prems Cons.IH show ?thesis by simp
  qed
qed

lemma relax_covers:
  "relax s es (p, st) = Inr (p', st') \<Longrightarrow> esymbol ` set es \<subseteq> dom p'"
proof (induction es arbitrary: p st)
  case Nil
  then show ?case by simp
next
  case (Cons r rs)
  show ?case
  proof (cases "p (esymbol r) = None")
    case True
    with Cons.prems obtain v where
      rec: "relax s rs (p(esymbol r \<mapsto> v), st @ [esymbol r]) = Inr (p', st')"
      by (auto split: sum.splits)
    from relax_dom [OF rec] have "esymbol r \<in> dom p'" by (auto simp del: fun_upd_apply)
    with Cons.IH [OF rec] show ?thesis by simp
  next
    case False
    with Cons.prems have rec: "relax s rs (p, st) = Inr (p', st')" by simp
    from False relax_dom [OF rec] have "esymbol r \<in> dom p'" by auto
    with Cons.IH [OF rec] show ?thesis by simp
  qed
qed

lemma relax_total: "p s \<noteq> None \<Longrightarrow> \<exists>r. relax s es (p, st) = Inr r"
proof (induction es arbitrary: p st)
  case Nil
  then show ?case by simp
next
  case (Cons r rs)
  from Cons.prems obtain v where v: "p s = Some v" by blast
  show ?case
  proof (cases "p (esymbol r) = None")
    case True
    with v have "s \<noteq> esymbol r" by auto
    with v have "(p(esymbol r \<mapsto> times v (ratio r))) s \<noteq> None" by simp
    from Cons.IH [of "p(esymbol r \<mapsto> times v (ratio r))" "st @ [esymbol r]", OF this] True v
    show ?thesis by (simp add: call_times_def del: fun_upd_apply)
  next
    case False
    with Cons.IH [of p st, OF Cons.prems] show ?thesis by auto
  qed
qed

lemma relax_value:
  "relax s es (p, st) = Inr (p', st') \<Longrightarrow> p b = None \<Longrightarrow> p' b = Some w \<Longrightarrow>
     \<exists>e v. e \<in> set es \<and> esymbol e = b \<and> p s = Some v \<and> w = times v (ratio e)"
proof (induction es arbitrary: p st)
  case Nil
  then show ?case by simp
next
  case (Cons r rs)
  show ?case
  proof (cases "p (esymbol r) = None")
    case True
    with Cons.prems obtain v where v: "call_times (p s) (Some (ratio r)) = Inr v"
      and rec: "relax s rs (p(esymbol r \<mapsto> v), st @ [esymbol r]) = Inr (p', st')"
      by (auto split: sum.splits)
    from v obtain u where u: "p s = Some u" "v = times u (ratio r)"
      by (auto simp: call_times_def split: option.splits)
    with True have ne: "s \<noteq> esymbol r" by auto
    show ?thesis
    proof (cases "b = esymbol r")
      case True
      from relax_mono [OF rec] have "p' (esymbol r) = Some v"
        by (auto simp: map_le_def dom_def)
      with True Cons.prems u show ?thesis by auto
    next
      case False
      with Cons.prems have "(p(esymbol r \<mapsto> v)) b = None" by simp
      from Cons.IH [OF rec this Cons.prems(3)] ne u show ?thesis by auto
    qed
  next
    case False
    with Cons.prems have rec: "relax s rs (p, st) = Inr (p', st')" by simp
    from Cons.IH [OF rec Cons.prems(2,3)] show ?thesis by auto
  qed
qed

lemma traverse_Nil [simp]: "traverse g [] p = Inr p"
  by (simp add: traverse.simps)

lemma traverse_skip:
  "st \<noteq> [] \<Longrightarrow> map_of g (last st) = None \<Longrightarrow> traverse g st p = traverse g (butlast st) p"
  by (subst traverse.simps) simp

lemma traverse_step:
  "st \<noteq> [] \<Longrightarrow> map_of g (last st) = Some es \<Longrightarrow>
   relax (last st) es (p, butlast st) = Inr (p', st') \<Longrightarrow> traverse g st p = traverse g st' p'"
  by (subst traverse.simps) simp

lemma traverse_error:
  "st \<noteq> [] \<Longrightarrow> map_of g (last st) = Some es \<Longrightarrow>
   relax (last st) es (p, butlast st) = Inl e \<Longrightarrow> traverse g st p = Inl e"
  by (subst traverse.simps) simp

lemma traverse_invariant:
  assumes run: "traverse g st p = Inr P"
    and init: "I st p"
    and skip: "\<And>st p. st \<noteq> [] \<Longrightarrow> I st p \<Longrightarrow> map_of g (last st) = None \<Longrightarrow> I (butlast st) p"
    and step: "\<And>st p es p' st'. st \<noteq> [] \<Longrightarrow> I st p \<Longrightarrow> map_of g (last st) = Some es \<Longrightarrow>
                 relax (last st) es (p, butlast st) = Inr (p', st') \<Longrightarrow> I st' p'"
  shows "I [] P"
  using run init skip step
proof (induction g st p rule: traverse.induct)
  case (1 graph stack symbol2USD)
  note skip' = "1.prems"(3) and step' = "1.prems"(4)
  show ?case
  proof (cases "stack = []")
    case True
    with "1.prems"(1,2) show ?thesis by simp
  next
    case ne: False
    show ?thesis
    proof (cases "map_of graph (last stack)")
      case None
      from "1.prems"(1) have "traverse graph (butlast stack) symbol2USD = Inr P"
        unfolding traverse_skip [OF ne None] .
      moreover have "I (butlast stack) symbol2USD" using ne "1.prems"(2) None by (rule skip')
      ultimately show ?thesis by (rule "1.IH"(1) [OF ne None _ _ skip' step'])
    next
      case (Some es)
      show ?thesis
      proof (cases "relax (last stack) es (symbol2USD, butlast stack)")
        case (Inl e)
        from "1.prems"(1) show ?thesis unfolding traverse_error [OF ne Some Inl] by simp
      next
        case (Inr x)
        obtain p' st' where x: "x = (p', st')" by (cases x)
        with Inr have r: "relax (last stack) es (symbol2USD, butlast stack) = Inr (p', st')" by simp
        from "1.prems"(1) have "traverse graph st' p' = Inr P"
          unfolding traverse_step [OF ne Some r] .
        moreover have "I st' p'" using ne "1.prems"(2) Some r by (rule step')
        ultimately show ?thesis by (rule "1.IH"(2) [OF ne Some Inr x [symmetric] _ _ skip' step'])
      qed
    qed
  qed
qed

lemma traverse_mono:
  assumes "traverse g st p = Inr P"
  shows "p \<subseteq>\<^sub>m P"
proof (rule traverse_invariant [OF assms, where I = "\<lambda>st q. p \<subseteq>\<^sub>m q"])
  show "p \<subseteq>\<^sub>m p" by simp
next
  fix st q es q' st'
  assume "p \<subseteq>\<^sub>m q" and "relax (last st) es (q, butlast st) = Inr (q', st')"
  then show "p \<subseteq>\<^sub>m q'" by (blast intro: map_le_trans dest: relax_mono)
qed

lemma traverse_closed:
  assumes run: "traverse g st p = Inr P"
    and init: "edges g `` (dom p - set st) \<subseteq> dom p"
  shows "edges g `` dom P \<subseteq> dom P"
proof -
  have "edges g `` (dom P - set []) \<subseteq> dom P"
  proof (rule traverse_invariant [OF run, where I = "\<lambda>st q. edges g `` (dom q - set st) \<subseteq> dom q"])
    show "edges g `` (dom p - set st) \<subseteq> dom p" by (rule init)
  next
    fix st :: "symbol list" and q :: prices
    assume ne: "st \<noteq> []" and inv: "edges g `` (dom q - set st) \<subseteq> dom q"
      and none: "map_of g (last st) = None"
    have st: "set st = insert (last st) (set (butlast st))"
      using ne by (metis append_butlast_last_id list.simps(15) rotate1.simps(2) set_rotate1)
    show "edges g `` (dom q - set (butlast st)) \<subseteq> dom q"
    proof
      fix b assume "b \<in> edges g `` (dom q - set (butlast st))"
      then obtain a where a: "a \<in> dom q" "a \<notin> set (butlast st)" "(a, b) \<in> edges g" by blast
      from a(3) none have "a \<noteq> last st" by (auto simp: edges_def)
      with a st have "a \<in> dom q - set st" by simp
      with a(3) inv show "b \<in> dom q" by blast
    qed
  next
    fix st :: "symbol list" and q :: prices and es q' st'
    assume ne: "st \<noteq> []" and inv: "edges g `` (dom q - set st) \<subseteq> dom q"
      and some: "map_of g (last st) = Some es"
      and rel: "relax (last st) es (q, butlast st) = Inr (q', st')"
    have st: "set st = insert (last st) (set (butlast st))"
      using ne by (metis append_butlast_last_id list.simps(15) rotate1.simps(2) set_rotate1)
    from relax_stack [OF rel] obtain new where
      new: "st' = butlast st @ new" "set new = dom q' - dom q" by blast
    from relax_dom [OF rel] have sub: "dom q \<subseteq> dom q'" by simp
    from relax_covers [OF rel] have cov: "esymbol ` set es \<subseteq> dom q'" .
    show "edges g `` (dom q' - set st') \<subseteq> dom q'"
    proof
      fix b assume "b \<in> edges g `` (dom q' - set st')"
      then obtain a where a: "a \<in> dom q'" "a \<notin> set st'" "(a, b) \<in> edges g" by blast
      from a new have aq: "a \<in> dom q" "a \<notin> set (butlast st)" by auto
      show "b \<in> dom q'"
      proof (cases "a = last st")
        case True
        with a(3) some cov show ?thesis by (auto simp: edges_def)
      next
        case False
        with aq st have "a \<in> dom q - set st" by simp
        with a(3) inv sub show ?thesis by blast
      qed
    qed
  qed
  then show ?thesis by simp
qed

lemma path_reach: "path g a v b w \<Longrightarrow> (a, b) \<in> (edges g)\<^sup>*"
proof (induction rule: path.induct)
  case path_start
  show ?case by simp
next
  case (path_edge b w es e)
  then have "(b, esymbol e) \<in> edges g" by (auto simp: edges_def)
  with path_edge.IH show ?case by (rule rtrancl_into_rtrancl)
qed

lemma traverse_path:
  assumes run: "traverse g st p = Inr P"
    and dom: "set st \<subseteq> dom p"
    and new: "p b = None" "P b = Some w"
  shows "\<exists>s v. s \<in> set st \<and> p s = Some v \<and> path g s v b w"
proof -
  let ?I = "\<lambda>st' q. p \<subseteq>\<^sub>m q \<and> (\<forall>s \<in> set st'. q s \<noteq> None \<and> (s \<in> set st \<or> p s = None)) \<and>
      (\<forall>b w. q b = Some w \<longrightarrow> p b = None \<longrightarrow> (\<exists>s v. s \<in> set st \<and> p s = Some v \<and> path g s v b w))"
  have "?I [] P"
  proof (rule traverse_invariant [OF run, where I = ?I])
    show "?I st p" using dom by auto
  next
    fix st' :: "symbol list" and q :: prices
    assume "st' \<noteq> []" and "?I st' q"
    then show "?I (butlast st') q" by (auto dest: in_set_butlastD)
  next
    fix st' :: "symbol list" and q :: prices and es q' st''
    assume ne: "st' \<noteq> []" and inv: "?I st' q"
      and some: "map_of g (last st') = Some es"
      and rel: "relax (last st') es (q, butlast st') = Inr (q', st'')"
    from relax_stack [OF rel] obtain nw where
      nw: "st'' = butlast st' @ nw" "set nw = dom q' - dom q" by blast
    from relax_mono [OF rel] have qq: "q \<subseteq>\<^sub>m q'" .
    from inv have pq: "p \<subseteq>\<^sub>m q" by simp
    from pq qq have pq': "p \<subseteq>\<^sub>m q'" by (rule map_le_trans)
    have top: "last st' \<in> set st'" using ne by simp
    have two: "\<forall>s \<in> set st''. q' s \<noteq> None \<and> (s \<in> set st \<or> p s = None)"
    proof
      fix s assume "s \<in> set st''"
      with nw consider "s \<in> set (butlast st')" | "s \<in> dom q'" "s \<notin> dom q" by auto
      then show "q' s \<noteq> None \<and> (s \<in> set st \<or> p s = None)"
      proof cases
        case 1
        then have "s \<in> set st'" by (rule in_set_butlastD)
        with inv have "q s \<noteq> None" "s \<in> set st \<or> p s = None" by auto
        with qq show ?thesis by (auto simp: map_le_def dom_def)
      next
        case 2
        with pq have "p s = None" by (auto simp: map_le_def dom_def)
        with 2 show ?thesis by auto
      qed
    qed
    have three: "\<forall>b w. q' b = Some w \<longrightarrow> p b = None \<longrightarrow>
        (\<exists>s v. s \<in> set st \<and> p s = Some v \<and> path g s v b w)"
    proof (intro allI impI)
      fix b w assume b: "q' b = Some w" "p b = None"
      show "\<exists>s v. s \<in> set st \<and> p s = Some v \<and> path g s v b w"
      proof (cases "q b")
        case (Some w')
        with qq b have "w' = w" by (auto simp: map_le_def dom_def)
        with Some b inv show ?thesis by blast
      next
        case None
        from relax_value [OF rel None b(1)] obtain e u where
          e: "e \<in> set es" "esymbol e = b" "q (last st') = Some u" "w = times u (ratio e)"
          by blast
        have "\<exists>s v. s \<in> set st \<and> p s = Some v \<and> path g s v (last st') u"
        proof (cases "p (last st')")
          case None
          with e(3) inv show ?thesis by blast
        next
          case (Some v)
          with pq e(3) have "v = u" by (auto simp: map_le_def dom_def)
          moreover from inv top Some have "last st' \<in> set st" by auto
          ultimately show ?thesis using Some path_start by blast
        qed
        then obtain s v where s: "s \<in> set st" "p s = Some v" "path g s v (last st') u" by blast
        from path_edge [OF s(3) some e(1)] e s show ?thesis by blast
      qed
    qed
    from pq' two three show "?I st'' q'" by blast
  qed
  with new show ?thesis by blast
qed

lemma traverse_total: "set st \<subseteq> dom p \<Longrightarrow> \<exists>P. traverse g st p = Inr P"
proof (induction g st p rule: traverse.induct)
  case (1 graph stack symbol2USD)
  show ?case
  proof (cases "stack = []")
    case True
    then show ?thesis by simp
  next
    case ne: False
    have bl: "set (butlast stack) \<subseteq> dom symbol2USD"
      using "1.prems" by (auto dest: in_set_butlastD)
    show ?thesis
    proof (cases "map_of graph (last stack)")
      case None
      from "1.IH"(1) [OF ne None bl] show ?thesis unfolding traverse_skip [OF ne None] .
    next
      case (Some es)
      from ne have "last stack \<in> set stack" by simp
      with "1.prems" have "symbol2USD (last stack) \<noteq> None" by blast
      from relax_total [of symbol2USD "last stack" es "butlast stack", OF this] obtain p' st' where
        r: "relax (last stack) es (symbol2USD, butlast stack) = Inr (p', st')" by (metis surj_pair)
      from relax_stack [OF r] obtain new where
        "st' = butlast stack @ new" "set new = dom p' - dom symbol2USD" by blast
      moreover from relax_dom [OF r] have "dom symbol2USD \<subseteq> dom p'" by simp
      ultimately have "set st' \<subseteq> dom p'" using bl by (simp add: subset_iff)
      from "1.IH"(2) [OF ne Some r refl this] show ?thesis
        unfolding traverse_step [OF ne Some r] .
    qed
  qed
qed

lemma traverse_dom:
  assumes run: "traverse g st p = Inr P"
    and dom: "set st \<subseteq> dom p"
    and closed: "edges g `` (dom p - set st) \<subseteq> dom p"
  shows "dom P = (edges g)\<^sup>* `` dom p"
proof
  show "dom P \<subseteq> (edges g)\<^sup>* `` dom p"
  proof
    fix b assume "b \<in> dom P"
    then obtain w where w: "P b = Some w" by blast
    show "b \<in> (edges g)\<^sup>* `` dom p"
    proof (cases "p b")
      case None
      from traverse_path [OF run dom None w] obtain s v where
        "s \<in> set st" "p s = Some v" "path g s v b w" by blast
      then show ?thesis by (blast dest: path_reach)
    next
      case (Some a)
      then show ?thesis by blast
    qed
  qed
next
  from traverse_closed [OF run closed] have c: "edges g `` dom P \<subseteq> dom P" .
  from traverse_mono [OF run] have m: "dom p \<subseteq> dom P" by (rule map_le_implies_dom_le)
  show "(edges g)\<^sup>* `` dom p \<subseteq> dom P"
  proof
    fix b assume "b \<in> (edges g)\<^sup>* `` dom p"
    then obtain a where a: "a \<in> dom p" "(a, b) \<in> (edges g)\<^sup>*" by blast
    from a(2) a(1) m c show "b \<in> dom P"
      by (induction rule: rtrancl_induct) blast+
  qed
qed

section \<open>Directional normalization\<close>

lemma scaled_pos: "0 < scaled a u \<longleftrightarrow> 0 < a"
  by (simp add: scaled_def zero_less_divide_iff)

lemma scaled_neg: "scaled a u < 0 \<longleftrightarrow> a < 0"
  by (simp add: scaled_def divide_less_0_iff)

text \<open>
  C8. For a swap whose two raw deltas are nonzero and of opposite sign, decoding
  succeeds; leg0 carries the positive scaled delta (so its amount is positive) with the
  symbol of that side's token, and leg1 carries the absolute value of the other delta,
  scaled by its own token's decimals, with the symbol of that other token.
\<close>

theorem decode_legs_opposite_signs:
  assumes "a0 \<noteq> 0" and "a1 \<noteq> 0" and "(0 < a0) \<noteq> (0 < a1)"
  shows "\<exists>l0 l1. decode_legs pt (Some a0) (Some a1) = Inr (l0, l1) \<and>
           amount l0 = Some (Fin (max (scaled a0 (tdecimal (pair_token0 pt))) (scaled a1 (tdecimal (pair_token1 pt))))) \<and>
           0 < max (scaled a0 (tdecimal (pair_token0 pt))) (scaled a1 (tdecimal (pair_token1 pt))) \<and>
           lsymbol l0 = (if 0 < a0 then tsymbol (pair_token0 pt) else tsymbol (pair_token1 pt)) \<and>
           amount l1 = Some (Fin (if 0 < a0 then scaled \<bar>a1\<bar> (tdecimal (pair_token1 pt))
                                  else scaled \<bar>a0\<bar> (tdecimal (pair_token0 pt)))) \<and>
           lsymbol l1 = (if 0 < a0 then tsymbol (pair_token1 pt) else tsymbol (pair_token0 pt))"
proof (cases "0 < a0")
  case True
  with assms have n1: "a1 < 0" by linarith
  have p0: "0 < scaled a0 (tdecimal (pair_token0 pt))" using True by (simp add: scaled_pos)
  have q1: "scaled a1 (tdecimal (pair_token1 pt)) < 0" using n1 by (simp add: scaled_neg)
  have ab: "\<bar>scaled a1 (tdecimal (pair_token1 pt))\<bar> = scaled \<bar>a1\<bar> (tdecimal (pair_token1 pt))"
    by (simp add: scaled_def)
  from p0 q1 have mx: "max (scaled a0 (tdecimal (pair_token0 pt))) (scaled a1 (tdecimal (pair_token1 pt)))
      = scaled a0 (tdecimal (pair_token0 pt))" by simp
  show ?thesis
    using True p0 ab unfolding mx
    by (simp add: decode_legs_def formatUnits_def directional_legs_def scaled_def [symmetric])
next
  case False
  with assms have n0: "a0 < 0" and p1: "0 < a1" by linarith+
  have q0: "scaled a0 (tdecimal (pair_token0 pt)) < 0" using n0 by (simp add: scaled_neg)
  have r1: "0 < scaled a1 (tdecimal (pair_token1 pt))" using p1 by (simp add: scaled_pos)
  have ab: "\<bar>scaled a0 (tdecimal (pair_token0 pt))\<bar> = scaled \<bar>a0\<bar> (tdecimal (pair_token0 pt))"
    by (simp add: scaled_def)
  from q0 r1 have mx: "max (scaled a0 (tdecimal (pair_token0 pt))) (scaled a1 (tdecimal (pair_token1 pt)))
      = scaled a1 (tdecimal (pair_token1 pt))" by simp
  have np: "\<not> 0 \<le> scaled a0 (tdecimal (pair_token0 pt))" using q0 by simp
  show ?thesis
    using False r1 ab np unfolding mx
    by (simp add: decode_legs_def formatUnits_def directional_legs_def scaled_def [symmetric])
qed

theorem decode_legs_opposite_signs_witness:
  "(2000000::int) \<noteq> 0 \<and> (- 5::int) \<noteq> 0 \<and> ((0 < (2000000::int)) \<noteq> (0 < (- 5::int))) \<and>
   (\<exists>l0 l1.
      decode_legs \<lparr>pair_token0 = \<lparr>tsymbol = Sym ''USDC'', tdecimal = Some 6\<rparr>,
                    pair_token1 = \<lparr>tsymbol = Sym ''WETH'', tdecimal = None\<rparr>\<rparr>
        (Some 2000000) (Some (- 5)) = Inr (l0, l1) \<and>
      amount l0 = Some (Fin 2) \<and> lsymbol l0 = Sym ''USDC'' \<and>
      amount l1 = Some (Fin (5 / 10 ^ 18)) \<and> lsymbol l1 = Sym ''WETH'')"
proof -
  have h: "(2000000::int) \<noteq> 0" "(- 5::int) \<noteq> 0" "(0 < (2000000::int)) \<noteq> (0 < (- 5::int))"
    by simp_all
  show ?thesis
    using decode_legs_opposite_signs [OF h,
        of "\<lparr>pair_token0 = \<lparr>tsymbol = Sym ''USDC'', tdecimal = Some 6\<rparr>,
             pair_token1 = \<lparr>tsymbol = Sym ''WETH'', tdecimal = None\<rparr>\<rparr>"]
    by (simp add: scaled_def)
qed

section \<open>The pricing loop: basic facts\<close>

text \<open>
  The comparison of line 394 never holds, so an iteration of the loop either finds the
  first leg priced and leaves the price map as it is, or seeds the first leg with the
  answer of the oracle and traverses from it. Either way the price map is extended,
  stays closed under the edges, and its domain becomes what is reachable from the old
  domain and the first leg.
\<close>

lemma loose_eq_new [simp]: "\<not> loose_eq (Obj 0 x) (Obj 1 y)" "\<not> loose_eq (Obj 0 x) (Obj (Suc 0) y)"
  by (simp_all add: loose_eq_def)

lemma assign_usd_symbols:
  assumes "assign_usd p se = Inr se'"
  shows "lsymbol (token0 se') = lsymbol (token0 se)" "lsymbol (token1 se') = lsymbol (token1 se)"
    "id' (token0 se') = id' (token0 se)" "id' (token1 se') = id' (token1 se)"
    "amount (token0 se') = amount (token0 se)" "amount (token1 se') = amount (token1 se)"
    "log.truncate se' = log.truncate se"
  using assms
  by (auto simp: assign_usd_def Let_def log.truncate_def split: option.splits sum.splits)

lemma assign_usd_leg0:
  assumes "assign_usd p se = Inr se'"
  shows "value_in_usd (token0 se') =
           (case p (lsymbol (token0 se)) of None \<Rightarrow> value_in_usd (token0 se) | Some v \<Rightarrow> Some v)"
    and "total_exchanged_usd (token0 se') =
           (case p (lsymbol (token0 se)) of None \<Rightarrow> total_exchanged_usd (token0 se)
            | Some v \<Rightarrow> (case amount (token0 se) of None \<Rightarrow> None | Some a \<Rightarrow> Some (times v a)))"
    and "p (lsymbol (token0 se)) \<noteq> None \<Longrightarrow> amount (token0 se) \<noteq> None"
  using assms
  by (auto simp: assign_usd_def Let_def call_times_def split: option.splits sum.splits)

lemma assign_usd_leg1:
  assumes "assign_usd p se = Inr se'"
  shows "value_in_usd (token1 se') =
           (if p (lsymbol (token0 se)) = None then value_in_usd (token1 se)
            else case p (lsymbol (token1 se)) of None \<Rightarrow> value_in_usd (token1 se) | Some v \<Rightarrow> Some v)"
    and "total_exchanged_usd (token1 se') =
           (if p (lsymbol (token0 se)) = None then total_exchanged_usd (token1 se)
            else case p (lsymbol (token1 se)) of None \<Rightarrow> total_exchanged_usd (token1 se)
            | Some v \<Rightarrow> (case amount (token1 se) of None \<Rightarrow> None | Some a \<Rightarrow> Some (times v a)))"
    and "p (lsymbol (token0 se)) \<noteq> None \<Longrightarrow> p (lsymbol (token1 se)) \<noteq> None \<Longrightarrow> amount (token1 se) \<noteq> None"
  using assms
  by (auto simp: assign_usd_def Let_def call_times_def split: option.splits sum.splits)

lemma assign_usd_twice:
  assumes "assign_usd p se = Inr se1"
  shows "assign_usd p se1 = Inr se1"
  using assms
  by (auto simp: assign_usd_def Let_def call_times_def split: option.splits sum.splits)

lemma price_event_cases:
  assumes "price_event g m st se = Inr (st', se')"
  obtains (priced) "usd st (lsymbol (token0 se)) \<noteq> None" "st' = st" "assign_usd (usd st) se = Inr se'"
  | (fallback) P where "usd st (lsymbol (token0 se)) = None"
      "traverse g [lsymbol (token0 se)]
         ((usd st)(lsymbol (token0 se) \<mapsto> getEthereumTokenUSD m (id' (token0 se)))) = Inr P"
      "st' = \<lparr>usd = P, asked = asked st @ [id' (token0 se)]\<rparr>"
      "assign_usd P se = Inr se'"
proof (cases "usd st (lsymbol (token0 se)) = None")
  case True
  with assms obtain P where
    "traverse g [lsymbol (token0 se)]
       ((usd st)(lsymbol (token0 se) \<mapsto> getEthereumTokenUSD m (id' (token0 se)))) = Inr P"
    "st' = \<lparr>usd = P, asked = asked st @ [id' (token0 se)]\<rparr>" "assign_usd P se = Inr se'"
    by (auto simp: price_event_def Let_def split: sum.splits)
  with True show ?thesis by (rule fallback)
next
  case False
  with assms obtain se1 where a: "assign_usd (usd st) se = Inr se1" "assign_usd (usd st) se1 = Inr se'"
    "st' = st"
    by (auto simp: price_event_def Let_def split: sum.splits)
  from assign_usd_twice [OF a(1)] a(2) have "se1 = se'" by simp
  with False a show ?thesis by (auto intro: priced)
qed

lemma closed_reach: "edges g `` D \<subseteq> D \<Longrightarrow> (edges g)\<^sup>* `` D = D"
  by (rule Image_closed_trancl)

lemma price_event_assign:
  assumes "price_event g m st se = Inr (st', se')"
  shows "assign_usd (usd st') se = Inr se'"
  using assms by (cases rule: price_event_cases) simp_all

lemma price_event_mono:
  assumes "price_event g m st se = Inr (st', se')"
  shows "usd st \<subseteq>\<^sub>m usd st'"
  using assms
proof (cases rule: price_event_cases)
  case priced
  then show ?thesis by simp
next
  case (fallback P)
  have "usd st \<subseteq>\<^sub>m (usd st)(lsymbol (token0 se) \<mapsto> getEthereumTokenUSD m (id' (token0 se)))"
    using fallback(1) by (auto simp: map_le_def)
  with traverse_mono [OF fallback(2)] fallback(3) show ?thesis
    by (auto intro: map_le_trans)
qed

lemma price_event_seeds:
  assumes "price_event g m st se = Inr (st', se')" and "usd st (lsymbol (token0 se)) = None"
  shows "usd st' (lsymbol (token0 se)) = Some (getEthereumTokenUSD m (id' (token0 se))) \<and>
         asked st' = asked st @ [id' (token0 se)]"
  using assms(1)
proof (cases rule: price_event_cases)
  case priced
  with assms(2) show ?thesis by simp
next
  case (fallback P)
  from traverse_mono [OF fallback(2)] fallback(3)
  have "usd st' (lsymbol (token0 se)) = Some (getEthereumTokenUSD m (id' (token0 se)))"
    by (auto simp: map_le_def)
  with fallback(3) show ?thesis by simp
qed

lemma price_event_priced:
  assumes "price_event g m st se = Inr (st', se')"
  shows "usd st' (lsymbol (token0 se)) \<noteq> None"
proof (cases "usd st (lsymbol (token0 se))")
  case None
  from price_event_seeds [OF assms None] show ?thesis by simp
next
  case (Some v)
  with price_event_mono [OF assms] show ?thesis by (auto simp: map_le_def dom_def)
qed

lemma price_event_asked:
  assumes "price_event g m st se = Inr (st', se')"
  shows "asked st' = (if usd st (lsymbol (token0 se)) = None then asked st @ [id' (token0 se)]
                      else asked st)"
  using assms by (cases rule: price_event_cases) simp_all

lemma price_event_closed:
  assumes run: "price_event g m st se = Inr (st', se')"
    and closed: "edges g `` dom (usd st) \<subseteq> dom (usd st)"
  shows "edges g `` dom (usd st') \<subseteq> dom (usd st')"
  using run
proof (cases rule: price_event_cases)
  case priced
  with closed show ?thesis by simp
next
  case (fallback P)
  let ?p = "(usd st)(lsymbol (token0 se) \<mapsto> getEthereumTokenUSD m (id' (token0 se)))"
  from fallback(1) have "dom ?p - set [lsymbol (token0 se)] = dom (usd st)" by auto
  with closed have "edges g `` (dom ?p - set [lsymbol (token0 se)]) \<subseteq> dom ?p" by auto
  from traverse_closed [OF fallback(2) this] fallback(3) show ?thesis by simp
qed

lemma price_event_dom:
  assumes run: "price_event g m st se = Inr (st', se')"
    and closed: "edges g `` dom (usd st) \<subseteq> dom (usd st)"
  shows "dom (usd st') = (edges g)\<^sup>* `` insert (lsymbol (token0 se)) (dom (usd st))"
  using run
proof (cases rule: price_event_cases)
  case priced
  then have "insert (lsymbol (token0 se)) (dom (usd st)) = dom (usd st)" by auto
  with closed_reach [OF closed] priced(2) show ?thesis by simp
next
  case (fallback P)
  let ?p = "(usd st)(lsymbol (token0 se) \<mapsto> getEthereumTokenUSD m (id' (token0 se)))"
  from fallback(1) have d: "dom ?p - set [lsymbol (token0 se)] = dom (usd st)" by auto
  with closed have c: "edges g `` (dom ?p - set [lsymbol (token0 se)]) \<subseteq> dom ?p" by auto
  have "set [lsymbol (token0 se)] \<subseteq> dom ?p" by simp
  from traverse_dom [OF fallback(2) this c] fallback(3) show ?thesis by simp
qed

lemma price_loop_split:
  assumes "price_loop g m st (pre @ se # post) = Inr (st', evs)"
  shows "\<exists>st1 pre' st2 se' post'.
           price_loop g m st pre = Inr (st1, pre') \<and> price_event g m st1 se = Inr (st2, se') \<and>
           price_loop g m st2 post = Inr (st', post') \<and> evs = pre' @ se' # post' \<and>
           length pre' = length pre"
  using assms
proof (induction pre arbitrary: st evs)
  case Nil
  then show ?case by (auto split: sum.splits)
next
  case (Cons x pre)
  from Cons.prems obtain sx x' evs' where
    x: "price_event g m st x = Inr (sx, x')" and
    rest: "price_loop g m sx (pre @ se # post) = Inr (st', evs')" and evs: "evs = x' # evs'"
    by (auto split: sum.splits)
  from Cons.IH [OF rest] obtain st1 pre' st2 se' post' where
    "price_loop g m sx pre = Inr (st1, pre')" "price_event g m st1 se = Inr (st2, se')"
    "price_loop g m st2 post = Inr (st', post')" "evs' = pre' @ se' # post'"
    "length pre' = length pre" by blast
  with x evs show ?case by simp
qed

lemma price_loop_mono:
  "price_loop g m st ses = Inr (st', evs) \<Longrightarrow> usd st \<subseteq>\<^sub>m usd st'"
proof (induction ses arbitrary: st evs)
  case Nil
  then show ?case by simp
next
  case (Cons x ses)
  from Cons.prems obtain sx x' evs' where
    x: "price_event g m st x = Inr (sx, x')" and
    rest: "price_loop g m sx ses = Inr (st', evs')"
    by (auto split: sum.splits)
  from price_event_mono [OF x] Cons.IH [OF rest] show ?case by (rule map_le_trans)
qed

lemma price_loop_closed:
  "price_loop g m st ses = Inr (st', evs) \<Longrightarrow> edges g `` dom (usd st) \<subseteq> dom (usd st) \<Longrightarrow>
     edges g `` dom (usd st') \<subseteq> dom (usd st')"
proof (induction ses arbitrary: st evs)
  case Nil
  then show ?case by simp
next
  case (Cons x ses)
  from Cons.prems obtain sx x' evs' where
    x: "price_event g m st x = Inr (sx, x')" and
    rest: "price_loop g m sx ses = Inr (st', evs')"
    by (auto split: sum.splits)
  from Cons.IH [OF rest price_event_closed [OF x Cons.prems(2)]] show ?case .
qed

lemma reach_insert_reach:
  "(r\<^sup>* `` (insert a D)) \<union> B = D' \<Longrightarrow> r\<^sup>* `` (D' \<union> C) = r\<^sup>* `` (insert a D \<union> B \<union> C)"
  by (auto intro: rtrancl_trans)

lemma price_loop_dom:
  "price_loop g m st ses = Inr (st', evs) \<Longrightarrow> edges g `` dom (usd st) \<subseteq> dom (usd st) \<Longrightarrow>
     dom (usd st') = (edges g)\<^sup>* `` (dom (usd st) \<union> (\<lambda>se. lsymbol (token0 se)) ` set ses)"
proof (induction ses arbitrary: st evs)
  case Nil
  then show ?case by (simp add: closed_reach)
next
  case (Cons x ses)
  from Cons.prems obtain sx x' evs' where
    x: "price_event g m st x = Inr (sx, x')" and
    rest: "price_loop g m sx ses = Inr (st', evs')"
    by (auto split: sum.splits)
  note c = price_event_closed [OF x Cons.prems(2)]
  note d = price_event_dom [OF x Cons.prems(2)]
  let ?S = "(\<lambda>se. lsymbol (token0 se)) ` set ses"
  have "dom (usd st') = (edges g)\<^sup>* `` (dom (usd sx) \<union> ?S)" by (rule Cons.IH [OF rest c])
  also have "\<dots> = (edges g)\<^sup>* `` (insert (lsymbol (token0 x)) (dom (usd st)) \<union> ?S)"
    unfolding d by (auto intro: rtrancl_trans)
  finally show ?case by simp
qed

lemma fold_upd_apply:
  "fold (\<lambda>s m. m(s \<mapsto> c)) xs m0 k = (if k \<in> set xs then Some c else m0 k)"
  by (induction xs arbitrary: m0) auto

lemma seed_apply:
  "seed E k = (if k \<in> set (butlast stack0) then Some (Fin 1)
               else if k = Sym ''WETH'' then Some E else None)"
  by (simp add: seed_def fold_upd_apply)

lemma stack0_split: "stack0 = butlast stack0 @ [Sym ''WETH'']"
  by (simp add: stack0_def)

lemma dom_seed: "dom (seed E) = set stack0"
proof -
  have "set stack0 = insert (Sym ''WETH'') (set (butlast stack0))"
    by (subst stack0_split) simp
  then show ?thesis by (auto simp: seed_apply dom_def)
qed

lemma map_of_addEdge:
  "map_of (addEdge g A B r) =
     (map_of g)(A \<mapsto> (case map_of g A of None \<Rightarrow> [] | Some es \<Rightarrow> es) @ [Edge B r])"
  by (cases "map_of g A")
     (auto simp: addEdge_def update_conv' map_add_def fun_eq_iff split: option.splits)

lemma edges_addEdge: "edges (addEdge g A B r) = insert (A, B) (edges g)"
  by (auto simp: edges_def map_of_addEdge split: option.splits if_splits)

lemma edges_Nil: "edges [] = {}"
  by (simp add: edges_def)

lemma swap_edges_Cons:
  "swap_edges (se # ses) =
     (if truthy (lsymbol (token0 se)) \<and> truthy (lsymbol (token1 se))
      then {(lsymbol (token0 se), lsymbol (token1 se)), (lsymbol (token1 se), lsymbol (token0 se))}
      else {}) \<union> swap_edges ses"
  by (simp add: swap_edges_def)

lemma edges_build_graph:
  "build_graph g0 ses = Inr g \<Longrightarrow> edges g = edges g0 \<union> swap_edges ses"
proof (induction ses arbitrary: g0)
  case Nil
  then show ?case by (simp add: swap_edges_def)
next
  case (Cons se ses)
  show ?case
  proof (cases "truthy (lsymbol (token0 se)) \<and> truthy (lsymbol (token1 se))")
    case True
    with Cons.prems obtain r01 r10 where
      "build_graph (addEdge (addEdge g0 (lsymbol (token0 se)) (lsymbol (token1 se)) r01)
           (lsymbol (token1 se)) (lsymbol (token0 se)) r10) ses = Inr g"
      by (auto split: sum.splits)
    from Cons.IH [OF this] True show ?thesis
      by (simp add: edges_addEdge swap_edges_Cons) blast
  next
    case False
    with Cons.prems have "build_graph g0 ses = Inr g" by auto
    from Cons.IH [OF this] False show ?thesis by (auto simp: swap_edges_Cons)
  qed
qed

lemma swap_edges_set: "set ses = set ses' \<Longrightarrow> swap_edges ses = swap_edges ses'"
  by (simp add: swap_edges_def)

lemma price_batch_parts:
  assumes "price_batch m ses E = Inr (st, evs)"
  obtains g p0 where "build_graph [] ses = Inr g" "traverse g stack0 (seed E) = Inr p0"
    "price_loop g m \<lparr>usd = p0, asked = []\<rparr> ses = Inr (st, evs)"
  using assms by (auto simp: price_batch_def split: sum.splits)

lemma anchors_closed:
  assumes "traverse g stack0 (seed E) = Inr p0"
  shows "edges g `` dom p0 \<subseteq> dom p0" and "dom p0 = (edges g)\<^sup>* `` set stack0"
proof -
  have c: "edges g `` (dom (seed E) - set stack0) \<subseteq> dom (seed E)" by (simp add: dom_seed)
  from traverse_closed [OF assms c] show "edges g `` dom p0 \<subseteq> dom p0" .
  have "set stack0 \<subseteq> dom (seed E)" by (simp add: dom_seed)
  from traverse_dom [OF assms this c] show "dom p0 = (edges g)\<^sup>* `` set stack0"
    by (simp add: dom_seed)
qed

lemma price_batch_mono:
  assumes "price_batch m ses E = Inr (st, evs)"
  shows "seed E \<subseteq>\<^sub>m usd st"
  using assms
proof (cases rule: price_batch_parts)
  case (1 g p0)
  from traverse_mono [OF 1(2)] price_loop_mono [OF 1(3)] show ?thesis
    by (auto intro: map_le_trans)
qed

lemma price_batch_dom:
  assumes "price_batch m ses E = Inr (st, evs)"
  shows "dom (usd st) =
           (swap_edges ses)\<^sup>* `` (set stack0 \<union> (\<lambda>se. lsymbol (token0 se)) ` set ses)"
  using assms
proof (cases rule: price_batch_parts)
  case (1 g p0)
  from edges_build_graph [OF 1(1)] have e: "edges g = swap_edges ses" by (simp add: edges_Nil)
  note a = anchors_closed [OF 1(2)]
  from price_loop_dom [OF 1(3)] a(1)
  have "dom (usd st) = (edges g)\<^sup>* `` (dom p0 \<union> (\<lambda>se. lsymbol (token0 se)) ` set ses)" by simp
  also have "\<dots> = (edges g)\<^sup>* `` (set stack0 \<union> (\<lambda>se. lsymbol (token0 se)) ` set ses)"
    unfolding a(2) by (auto intro: rtrancl_trans)
  finally show ?thesis unfolding e .
qed

lemma relax_append:
  "relax s es (p, pre @ st) =
     (case relax s es (p, st) of Inl e \<Rightarrow> Inl e | Inr (p', st') \<Rightarrow> Inr (p', pre @ st'))"
  by (induction es arbitrary: p st) (auto split: sum.splits)

lemma traverse_append:
  "traverse g (pre @ st) p =
     (case traverse g st p of Inl e \<Rightarrow> Inl e | Inr p' \<Rightarrow> traverse g pre p')"
proof (induction g st p rule: traverse.induct)
  case (1 graph stack symbol2USD)
  show ?case
  proof (cases "stack = []")
    case True
    then show ?thesis by simp
  next
    case ne: False
    then have ne': "pre @ stack \<noteq> []" and l: "last (pre @ stack) = last stack"
      and b: "butlast (pre @ stack) = pre @ butlast stack"
      by (simp_all add: butlast_append)
    show ?thesis
    proof (cases "map_of graph (last stack)")
      case None
      from None l have n': "map_of graph (last (pre @ stack)) = None" by simp
      show ?thesis
        unfolding traverse_skip [OF ne' n'] traverse_skip [OF ne None] b
        by (rule "1.IH"(1) [OF ne None])
    next
      case (Some es)
      from Some l have s': "map_of graph (last (pre @ stack)) = Some es" by simp
      show ?thesis
      proof (cases "relax (last stack) es (symbol2USD, butlast stack)")
        case (Inl e)
        then have "relax (last (pre @ stack)) es (symbol2USD, butlast (pre @ stack)) = Inl e"
          unfolding l b by (simp add: relax_append)
        from traverse_error [OF ne' s' this] traverse_error [OF ne Some Inl]
        show ?thesis by simp
      next
        case (Inr x)
        obtain p' st' where x: "x = (p', st')" by (cases x)
        with Inr have r: "relax (last stack) es (symbol2USD, butlast stack) = Inr (p', st')" by simp
        then have r': "relax (last (pre @ stack)) es (symbol2USD, butlast (pre @ stack))
            = Inr (p', pre @ st')"
          unfolding l b by (simp add: relax_append)
        show ?thesis
          unfolding traverse_step [OF ne' s' r'] traverse_step [OF ne Some r]
          by (rule "1.IH"(2) [OF ne Some Inr x [symmetric]])
      qed
    qed
  qed
qed

lemma traverse_no_keys: "\<forall>s \<in> set st. map_of g s = None \<Longrightarrow> traverse g st p = Inr p"
proof (induction st rule: rev_induct)
  case Nil
  show ?case by simp
next
  case (snoc x xs)
  then have "map_of g (last (xs @ [x])) = None" by simp
  from traverse_skip [OF _ this] snoc show ?case by simp
qed

text \<open>
  Every entry of the graph comes from a swap of the batch, and a batch whose legs all
  carry their amounts is priced without an exception: the comparison of line 394 never
  holds, and a traversal from a seeded symbol returns.
\<close>

lemma map_le_Some: "p \<subseteq>\<^sub>m q \<Longrightarrow> p k = Some v \<Longrightarrow> q k = Some v"
  by (force simp: map_le_def dom_def)

lemma call_dividedBy_Inr:
  "call_dividedBy x y = Inr r \<Longrightarrow> \<exists>a b. x = Some a \<and> y = Some b \<and> r = dividedBy a b"
  by (auto simp: call_dividedBy_def split: option.splits)

lemma assign_usd_total:
  "amount (token0 se) \<noteq> None \<Longrightarrow> amount (token1 se) \<noteq> None \<Longrightarrow> \<exists>se'. assign_usd p se = Inr se'"
  by (auto simp: assign_usd_def call_times_def Let_def split: option.splits)

lemma price_event_priced_total:
  assumes "usd st (lsymbol (token0 se)) \<noteq> None" "amount (token0 se) \<noteq> None" "amount (token1 se) \<noteq> None"
  shows "\<exists>se'. price_event g m st se = Inr (st, se')"
proof -
  from assign_usd_total [OF assms(2,3)] obtain se1 where a: "assign_usd (usd st) se = Inr se1" by blast
  from assign_usd_twice [OF a] a assms(1) show ?thesis by (simp add: price_event_def)
qed

lemma price_loop_all_priced:
  "\<forall>se \<in> set ses. usd st (lsymbol (token0 se)) \<noteq> None \<and> amount (token0 se) \<noteq> None \<and>
      amount (token1 se) \<noteq> None \<Longrightarrow> \<exists>evs. price_loop g m st ses = Inr (st, evs)"
proof (induction ses)
  case Nil
  show ?case by simp
next
  case (Cons se ses)
  then obtain se' where "price_event g m st se = Inr (st, se')"
    using price_event_priced_total [of st se g m] by auto
  moreover from Cons obtain evs where "price_loop g m st ses = Inr (st, evs)" by auto
  ultimately show ?case by simp
qed

lemma build_graph_total:
  "\<forall>se \<in> set ses. amount (token0 se) \<noteq> None \<and> amount (token1 se) \<noteq> None \<Longrightarrow>
     \<exists>g. build_graph g0 ses = Inr g"
  by (induction ses arbitrary: g0) (auto simp: call_dividedBy_def)

lemma price_event_total:
  assumes am: "amount (token0 se) \<noteq> None" "amount (token1 se) \<noteq> None"
  shows "\<exists>r. price_event g m st se = Inr r"
proof (cases "usd st (lsymbol (token0 se)) = None")
  case False
  from price_event_priced_total [OF False am] show ?thesis by blast
next
  case True
  let ?T = "lsymbol (token0 se)"
  let ?p = "(usd st)(?T \<mapsto> getEthereumTokenUSD m (id' (token0 se)))"
  have "set [?T] \<subseteq> dom ?p" by simp
  from traverse_total [OF this] obtain P where P: "traverse g [?T] ?p = Inr P" by blast
  from assign_usd_total [OF am] obtain se' where "assign_usd P se = Inr se'" by blast
  with True P show ?thesis by (simp add: price_event_def Let_def)
qed

lemma price_loop_total:
  "\<forall>se \<in> set ses. amount (token0 se) \<noteq> None \<and> amount (token1 se) \<noteq> None \<Longrightarrow>
     \<exists>r. price_loop g m st ses = Inr r"
proof (induction ses arbitrary: st)
  case Nil
  show ?case by simp
next
  case (Cons se ses)
  from Cons.prems price_event_total [of se g m st] obtain st1 se1 where
    e: "price_event g m st se = Inr (st1, se1)" by auto
  from Cons.prems Cons.IH [of st1] obtain st2 ses1 where
    "price_loop g m st1 ses = Inr (st2, ses1)" by auto
  with e show ?case by simp
qed

lemma price_batch_total:
  assumes "\<forall>se \<in> set ses. amount (token0 se) \<noteq> None \<and> amount (token1 se) \<noteq> None"
  shows "\<exists>st evs. price_batch m ses E = Inr (st, evs)"
proof -
  from build_graph_total [OF assms] obtain g where g: "build_graph [] ses = Inr g" by blast
  have "set stack0 \<subseteq> dom (seed E)" by (simp add: dom_seed)
  from traverse_total [OF this] obtain p0 where p0: "traverse g stack0 (seed E) = Inr p0" by blast
  from price_loop_total [OF assms] obtain r where
    "price_loop g m \<lparr>usd = p0, asked = []\<rparr> ses = Inr r" by blast
  with g p0 show ?thesis by (cases r) (simp add: price_batch_def)
qed

lemma fillUSDAmounts_priced:
  assumes "fillUSDAmounts srv ses E db = Inr (st, evs, snk)" and "ses \<noteq> []"
  shows "price_batch (Moralis_getTokenPrice srv) ses E = Inr (st, evs)"
  using assms by (auto simp: fillUSDAmounts_def split: sum.splits)

lemma fillUSDAmounts_of_price_batch:
  assumes "price_batch (Moralis_getTokenPrice srv) ses E = Inr (st, evs)" and "ses \<noteq> []"
    and "block_timestamp srv (blockNumber (hd ses)) = Inr ts"
  shows "fillUSDAmounts srv ses E db =
           Inr (st, evs, persist srv (Some E) ts evs \<lparr>store = db, attempted = [], logged = []\<rparr>)"
  using assms by (simp add: fillUSDAmounts_def)

lemma addEdge_entry:
  "map_of (addEdge g A B r) a = Some es \<Longrightarrow> e \<in> set es \<Longrightarrow>
     (\<exists>es0. map_of g a = Some es0 \<and> e \<in> set es0) \<or> (a = A \<and> e = Edge B r)"
  by (auto simp: map_of_addEdge split: if_splits option.splits)

lemma build_graph_entry:
  "build_graph g0 ses = Inr g \<Longrightarrow> map_of g a = Some es \<Longrightarrow> e \<in> set es \<Longrightarrow>
     (\<exists>es0. map_of g0 a = Some es0 \<and> e \<in> set es0) \<or>
     (\<exists>se \<in> set ses. trades se a (esymbol e) (ratio e))"
proof (induction ses arbitrary: g0)
  case Nil
  then show ?case by simp
next
  case (Cons se ses)
  show ?case
  proof (cases "truthy (lsymbol (token0 se)) \<and> truthy (lsymbol (token1 se))")
    case False
    with Cons.prems have "build_graph g0 ses = Inr g" by auto
    from Cons.IH [OF this Cons.prems(2,3)] show ?thesis by auto
  next
    case True
    let ?s0 = "lsymbol (token0 se)" and ?s1 = "lsymbol (token1 se)"
    from True Cons.prems obtain r01 r10 where
      r: "call_dividedBy (amount (token0 se)) (amount (token1 se)) = Inr r01"
         "call_dividedBy (amount (token1 se)) (amount (token0 se)) = Inr r10"
      and b: "build_graph (addEdge (addEdge g0 ?s0 ?s1 r01) ?s1 ?s0 r10) ses = Inr g"
      by (auto split: sum.splits)
    from r have t01: "trades se ?s0 ?s1 r01" and t10: "trades se ?s1 ?s0 r10"
      by (simp_all add: trades_def)
    from Cons.IH [OF b Cons.prems(2,3)] show ?thesis
    proof
      assume "\<exists>se \<in> set ses. trades se a (esymbol e) (ratio e)"
      then show ?thesis by auto
    next
      assume "\<exists>es0. map_of (addEdge (addEdge g0 ?s0 ?s1 r01) ?s1 ?s0 r10) a = Some es0 \<and> e \<in> set es0"
      then obtain es1 where
        m: "map_of (addEdge (addEdge g0 ?s0 ?s1 r01) ?s1 ?s0 r10) a = Some es1" and e: "e \<in> set es1"
        by blast
      from addEdge_entry [OF m e] show ?thesis
      proof
        assume "a = ?s1 \<and> e = Edge ?s0 r10"
        with t10 show ?thesis by simp
      next
        assume "\<exists>es0. map_of (addEdge g0 ?s0 ?s1 r01) a = Some es0 \<and> e \<in> set es0"
        then obtain es2 where
          m2: "map_of (addEdge g0 ?s0 ?s1 r01) a = Some es2" and e2: "e \<in> set es2" by blast
        from addEdge_entry [OF m2 e2] show ?thesis
        proof
          assume "a = ?s0 \<and> e = Edge ?s1 r01"
          with t01 show ?thesis by simp
        next
          assume "\<exists>es0. map_of g0 a = Some es0 \<and> e \<in> set es0"
          then show ?thesis by blast
        qed
      qed
    qed
  qed
qed

lemma trades_edge:
  assumes g: "build_graph [] ses = Inr g" and se: "se \<in> set ses" and t: "trades se a b r"
    and tr: "truthy a" "truthy b"
  shows "(a, b) \<in> edges g"
proof -
  from t tr have "truthy (lsymbol (token0 se)) \<and> truthy (lsymbol (token1 se))"
    and "(a, b) \<in> {(lsymbol (token0 se), lsymbol (token1 se)), (lsymbol (token1 se), lsymbol (token0 se))}"
    by (auto simp: trades_def)
  with se have "(a, b) \<in> swap_edges ses" by (auto simp: swap_edges_def)
  with edges_build_graph [OF g] show ?thesis by simp
qed

section \<open>Propagation from an anchor\<close>

text \<open>
  In a graph whose only edges into \<open>X\<close> come from USDC with ratio 2 or from \<open>Y\<close>, and
  whose only edges into \<open>Y\<close> come from \<open>X\<close> with ratio 3, every traversal keeps USDC at
  1, prices \<open>X\<close> at 2 if at all, and prices \<open>Y\<close> at 6 if at all and then only after
  \<open>X\<close>.
\<close>

lemma relax_usdc_x_y:
  assumes run: "relax s es (p, st) = Inr (p', st')"
    and U: "p (Sym ''USDC'') = Some (Fin 1)"
    and JX: "p (Sym X) = None \<or> p (Sym X) = Some (Fin 2)"
    and JY: "p (Sym Y) = None \<or> p (Sym Y) = Some (Fin 6) \<and> p (Sym X) = Some (Fin 2)"
    and eX: "\<forall>e \<in> set es. esymbol e = Sym X \<longrightarrow> s = Sym ''USDC'' \<and> ratio e = Fin 2 \<or> s = Sym Y"
    and eY: "\<forall>e \<in> set es. esymbol e = Sym Y \<longrightarrow> s = Sym X \<and> ratio e = Fin 3"
    and ne: "X \<noteq> Y"
  shows "p' (Sym ''USDC'') = Some (Fin 1) \<and>
         (p' (Sym X) = None \<or> p' (Sym X) = Some (Fin 2)) \<and>
         (p' (Sym Y) = None \<or> p' (Sym Y) = Some (Fin 6) \<and> p' (Sym X) = Some (Fin 2))"
  using run U JX JY eX eY
proof (induction es arbitrary: p st)
  case Nil
  then show ?case by simp
next
  case (Cons r rs)
  from Cons.prems(5,6) have
    rX: "\<forall>e \<in> set rs. esymbol e = Sym X \<longrightarrow> s = Sym ''USDC'' \<and> ratio e = Fin 2 \<or> s = Sym Y"
    and rY: "\<forall>e \<in> set rs. esymbol e = Sym Y \<longrightarrow> s = Sym X \<and> ratio e = Fin 3"
    by simp_all
  show ?case
  proof (cases "p (esymbol r) = None")
    case False
    with Cons.prems(1) have "relax s rs (p, st) = Inr (p', st')" by simp
    from Cons.IH [OF this Cons.prems(2,3,4) rX rY] show ?thesis .
  next
    case True
    with Cons.prems(1) obtain v where v: "call_times (p s) (Some (ratio r)) = Inr v"
      and rec: "relax s rs (p(esymbol r \<mapsto> v), st @ [esymbol r]) = Inr (p', st')"
      by (auto split: sum.splits)
    from v obtain u where u: "p s = Some u" "v = times u (ratio r)"
      by (auto simp: call_times_def split: option.splits)
    let ?q = "p(esymbol r \<mapsto> v)"
    from True Cons.prems(2) have nU: "esymbol r \<noteq> Sym ''USDC''" by auto
    have qU: "?q (Sym ''USDC'') = Some (Fin 1)" using nU Cons.prems(2) by simp
    have qX: "?q (Sym X) = None \<or> ?q (Sym X) = Some (Fin 2)"
    proof (cases "esymbol r = Sym X")
      case False
      with Cons.prems(3) show ?thesis by simp
    next
      case eq: True
      with Cons.prems(5) have "s = Sym ''USDC'' \<and> ratio r = Fin 2 \<or> s = Sym Y" by simp
      then show ?thesis
      proof
        assume "s = Sym ''USDC'' \<and> ratio r = Fin 2"
        with u Cons.prems(2) have "v = Fin 2" by auto
        with eq show ?thesis by simp
      next
        assume "s = Sym Y"
        with u Cons.prems(4) have "p (Sym X) = Some (Fin 2)" by auto
        with True eq show ?thesis by simp
      qed
    qed
    have qY: "?q (Sym Y) = None \<or> ?q (Sym Y) = Some (Fin 6) \<and> ?q (Sym X) = Some (Fin 2)"
    proof (cases "esymbol r = Sym Y")
      case eq: True
      with Cons.prems(6) have s: "s = Sym X" "ratio r = Fin 3" by simp_all
      with u Cons.prems(3) have "p (Sym X) = Some (Fin 2)" "v = Fin 6" by auto
      with eq ne show ?thesis by simp
    next
      case nY: False
      show ?thesis
      proof (cases "esymbol r = Sym X")
        case False
        with nY Cons.prems(4) show ?thesis by simp
      next
        case True
        with qX nY Cons.prems(4) show ?thesis by auto
      qed
    qed
    from Cons.IH [OF rec qU qX qY rX rY] show ?thesis .
  qed
qed

lemma traverse_usdc_x_y:
  assumes run: "traverse g st p = Inr P"
    and U: "p (Sym ''USDC'') = Some (Fin 1)"
    and JX: "p (Sym X) = None \<or> p (Sym X) = Some (Fin 2)"
    and JY: "p (Sym Y) = None \<or> p (Sym Y) = Some (Fin 6) \<and> p (Sym X) = Some (Fin 2)"
    and gX: "\<And>s es e. map_of g s = Some es \<Longrightarrow> e \<in> set es \<Longrightarrow> esymbol e = Sym X \<Longrightarrow>
               s = Sym ''USDC'' \<and> ratio e = Fin 2 \<or> s = Sym Y"
    and gY: "\<And>s es e. map_of g s = Some es \<Longrightarrow> e \<in> set es \<Longrightarrow> esymbol e = Sym Y \<Longrightarrow>
               s = Sym X \<and> ratio e = Fin 3"
    and ne: "X \<noteq> Y"
  shows "P (Sym ''USDC'') = Some (Fin 1) \<and>
         (P (Sym X) = None \<or> P (Sym X) = Some (Fin 2)) \<and>
         (P (Sym Y) = None \<or> P (Sym Y) = Some (Fin 6) \<and> P (Sym X) = Some (Fin 2))"
proof (rule traverse_invariant [OF run, where I = "\<lambda>st p. p (Sym ''USDC'') = Some (Fin 1) \<and>
         (p (Sym X) = None \<or> p (Sym X) = Some (Fin 2)) \<and>
         (p (Sym Y) = None \<or> p (Sym Y) = Some (Fin 6) \<and> p (Sym X) = Some (Fin 2))"])
  from U JX JY show "p (Sym ''USDC'') = Some (Fin 1) \<and>
         (p (Sym X) = None \<or> p (Sym X) = Some (Fin 2)) \<and>
         (p (Sym Y) = None \<or> p (Sym Y) = Some (Fin 6) \<and> p (Sym X) = Some (Fin 2))" by simp
next
  fix st :: "symbol list" and q :: prices
  assume "q (Sym ''USDC'') = Some (Fin 1) \<and>
         (q (Sym X) = None \<or> q (Sym X) = Some (Fin 2)) \<and>
         (q (Sym Y) = None \<or> q (Sym Y) = Some (Fin 6) \<and> q (Sym X) = Some (Fin 2))"
  then show "q (Sym ''USDC'') = Some (Fin 1) \<and>
         (q (Sym X) = None \<or> q (Sym X) = Some (Fin 2)) \<and>
         (q (Sym Y) = None \<or> q (Sym Y) = Some (Fin 6) \<and> q (Sym X) = Some (Fin 2))" .
next
  fix st :: "symbol list" and q :: prices and es q' st'
  assume inv: "q (Sym ''USDC'') = Some (Fin 1) \<and>
         (q (Sym X) = None \<or> q (Sym X) = Some (Fin 2)) \<and>
         (q (Sym Y) = None \<or> q (Sym Y) = Some (Fin 6) \<and> q (Sym X) = Some (Fin 2))"
    and some: "map_of g (last st) = Some es"
    and rel: "relax (last st) es (q, butlast st) = Inr (q', st')"
  have eX: "\<forall>e \<in> set es. esymbol e = Sym X \<longrightarrow> last st = Sym ''USDC'' \<and> ratio e = Fin 2 \<or> last st = Sym Y"
    using gX [OF some] by blast
  have eY: "\<forall>e \<in> set es. esymbol e = Sym Y \<longrightarrow> last st = Sym X \<and> ratio e = Fin 3"
    using gY [OF some] by blast
  from inv have "q (Sym ''USDC'') = Some (Fin 1)" "q (Sym X) = None \<or> q (Sym X) = Some (Fin 2)"
    "q (Sym Y) = None \<or> q (Sym Y) = Some (Fin 6) \<and> q (Sym X) = Some (Fin 2)" by simp_all
  from relax_usdc_x_y [OF rel this eX eY ne]
  show "q' (Sym ''USDC'') = Some (Fin 1) \<and>
         (q' (Sym X) = None \<or> q' (Sym X) = Some (Fin 2)) \<and>
         (q' (Sym Y) = None \<or> q' (Sym Y) = Some (Fin 6) \<and> q' (Sym X) = Some (Fin 2))" .
qed

lemma three_paths_graph:
  "build_graph [] [swap_of (leg_of ''0xa'' ''USDC'' 2) (leg_of ''0xx'' ''X'' 1),
                   swap_of (leg_of ''0xx'' ''X'' 3) (leg_of ''0xy'' ''Y'' 1),
                   swap_of (leg_of ''0xt'' ''USDT'' 5) (leg_of ''0xx'' ''X'' 1)] =
     Inr [(Sym ''USDC'', [Edge (Sym ''X'') (dividedBy (Fin 2) (Fin 1))]),
          (Sym ''X'', [Edge (Sym ''USDC'') (dividedBy (Fin 1) (Fin 2)),
                        Edge (Sym ''Y'') (dividedBy (Fin 3) (Fin 1)),
                        Edge (Sym ''USDT'') (dividedBy (Fin 1) (Fin 5))]),
          (Sym ''Y'', [Edge (Sym ''X'') (dividedBy (Fin 1) (Fin 3))]),
          (Sym ''USDT'', [Edge (Sym ''X'') (dividedBy (Fin 5) (Fin 1))])]"
  by (simp add: swap_of_def leg_of_def truthy_def call_dividedBy_def addEdge_def del: dividedBy.simps)

lemma three_paths_prices:
  "\<exists>evs. price_batch m
       [swap_of (leg_of ''0xa'' ''USDC'' 2) (leg_of ''0xx'' ''X'' 1),
        swap_of (leg_of ''0xx'' ''X'' 3) (leg_of ''0xy'' ''Y'' 1),
        swap_of (leg_of ''0xt'' ''USDT'' 5) (leg_of ''0xx'' ''X'' 1)] E =
     Inr (\<lparr>usd = (seed E)(Sym ''X'' \<mapsto> Fin 5, Sym ''Y'' \<mapsto> Fin 15), asked = []\<rparr>, evs)"
proof -
  let ?g = "[(Sym ''USDC'', [Edge (Sym ''X'') (dividedBy (Fin 2) (Fin 1))]),
          (Sym ''X'', [Edge (Sym ''USDC'') (dividedBy (Fin 1) (Fin 2)),
                        Edge (Sym ''Y'') (dividedBy (Fin 3) (Fin 1)),
                        Edge (Sym ''USDT'') (dividedBy (Fin 1) (Fin 5))]),
          (Sym ''Y'', [Edge (Sym ''X'') (dividedBy (Fin 1) (Fin 3))]),
          (Sym ''USDT'', [Edge (Sym ''X'') (dividedBy (Fin 5) (Fin 1))])]"
  let ?P = "(seed E)(Sym ''X'' \<mapsto> Fin 5, Sym ''Y'' \<mapsto> Fin 15)"
  define pre where "pre = butlast (butlast (butlast stack0))"
  have split: "stack0 = pre @ [Sym ''USDC'', Sym ''USDT'', Sym ''WETH'']"
    by (simp add: pre_def stack0_def)
  have r: "dividedBy (Fin 5) (Fin 1) = Fin 5" "dividedBy (Fin 3) (Fin 1) = Fin 3" by simp_all
  have t: "times (Fin 1) (Fin 5) = Fin 5" "times (Fin 5) (Fin 3) = Fin 15" by simp_all
  have top: "traverse ?g [Sym ''USDC'', Sym ''USDT'', Sym ''WETH''] (seed E) = Inr ?P"
    by (simp add: traverse.simps seed_apply stack0_def call_times_def r t
          del: dividedBy.simps times.simps)
  have rest: "traverse ?g pre ?P = Inr ?P"
    by (rule traverse_no_keys) (auto simp: pre_def stack0_def)
  have tr: "traverse ?g stack0 (seed E) = Inr ?P"
    unfolding split by (simp add: traverse_append top rest del: dividedBy.simps times.simps)
  have pl: "\<exists>evs. price_loop ?g m \<lparr>usd = ?P, asked = []\<rparr>
       [swap_of (leg_of ''0xa'' ''USDC'' 2) (leg_of ''0xx'' ''X'' 1),
        swap_of (leg_of ''0xx'' ''X'' 3) (leg_of ''0xy'' ''Y'' 1),
        swap_of (leg_of ''0xt'' ''USDT'' 5) (leg_of ''0xx'' ''X'' 1)] =
      Inr (\<lparr>usd = ?P, asked = []\<rparr>, evs)"
    by (rule price_loop_all_priced) (simp add: swap_of_def leg_of_def seed_apply stack0_def)
  show ?thesis using pl
    by (simp add: price_batch_def three_paths_graph tr
          del: price_loop.simps build_graph.simps dividedBy.simps times.simps)
qed

text \<open>
  C1, as stated, fails when another path reaches \<open>X\<close> first. The batch has a swap of
  USDC against \<open>X\<close> with ratio 2 from USDC to \<open>X\<close>, a swap of \<open>X\<close> against \<open>Y\<close>
  with ratio 3 from \<open>X\<close> to \<open>Y\<close>, and a swap of USDT against \<open>X\<close> with ratio 5. USDC
  is seeded at 1, but USDT is popped before USDC: \<open>X\<close> is priced at 5 and \<open>Y\<close> at 15.
\<close>

theorem other_path_reaches_x_first:
  "trades (swap_of (leg_of ''0xa'' ''USDC'' 2) (leg_of ''0xx'' ''X'' 1))
     (Sym ''USDC'') (Sym ''X'') (Fin 2) \<and>
   trades (swap_of (leg_of ''0xx'' ''X'' 3) (leg_of ''0xy'' ''Y'' 1))
     (Sym ''X'') (Sym ''Y'') (Fin 3) \<and>
   (\<exists>st evs snk.
      fillUSDAmounts (services_of (\<lambda>i. Inl Rejected))
        [swap_of (leg_of ''0xa'' ''USDC'' 2) (leg_of ''0xx'' ''X'' 1),
         swap_of (leg_of ''0xx'' ''X'' 3) (leg_of ''0xy'' ''Y'' 1),
         swap_of (leg_of ''0xt'' ''USDT'' 5) (leg_of ''0xx'' ''X'' 1)] (Fin 3000) 0 = Inr (st, evs, snk) \<and>
      usd st (Sym ''USDC'') = Some (Fin 1) \<and>
      usd st (Sym ''X'') = Some (Fin 5) \<and> usd st (Sym ''Y'') = Some (Fin 15) \<and>
      usd st (Sym ''X'') \<noteq> Some (Fin 2) \<and> usd st (Sym ''Y'') \<noteq> Some (Fin 6))"
proof -
  let ?srv = "services_of (\<lambda>i. Inl Rejected)"
  let ?b = "[swap_of (leg_of ''0xa'' ''USDC'' 2) (leg_of ''0xx'' ''X'' 1),
         swap_of (leg_of ''0xx'' ''X'' 3) (leg_of ''0xy'' ''Y'' 1),
         swap_of (leg_of ''0xt'' ''USDT'' 5) (leg_of ''0xx'' ''X'' 1)]"
  have t1: "trades (swap_of (leg_of ''0xa'' ''USDC'' 2) (leg_of ''0xx'' ''X'' 1))
     (Sym ''USDC'') (Sym ''X'') (Fin 2)"
    by (simp add: trades_def swap_of_def leg_of_def call_dividedBy_def)
  have t2: "trades (swap_of (leg_of ''0xx'' ''X'' 3) (leg_of ''0xy'' ''Y'' 1))
     (Sym ''X'') (Sym ''Y'') (Fin 3)"
    by (simp add: trades_def swap_of_def leg_of_def call_dividedBy_def)
  from three_paths_prices [of "Moralis_getTokenPrice ?srv" "Fin 3000"] obtain evs where
    p: "price_batch (Moralis_getTokenPrice ?srv) ?b (Fin 3000) =
      Inr (\<lparr>usd = (seed (Fin 3000))(Sym ''X'' \<mapsto> Fin 5, Sym ''Y'' \<mapsto> Fin 15), asked = []\<rparr>, evs)"
    by blast
  have ts: "block_timestamp ?srv (blockNumber (hd ?b)) = Inr ''2024-01-01T00:00:00.000Z''"
    by (simp add: services_of_def block_timestamp_def)
  note f = fillUSDAmounts_of_price_batch [OF p _ ts, of 0]
  have "((seed (Fin 3000))(Sym ''X'' \<mapsto> Fin 5, Sym ''Y'' \<mapsto> Fin 15)) (Sym ''USDC'') = Some (Fin 1)"
    by (simp add: seed_apply stack0_def)
  with f t1 t2 show ?thesis by simp
qed

text \<open>
  C1, amended. Let \<open>X\<close> and \<open>Y\<close> be distinct non-empty symbols outside the anchor
  list, in a batch that has a swap whose edge from USDC to \<open>X\<close> has ratio 2 and a swap
  whose edge from \<open>X\<close> to \<open>Y\<close> has ratio 3, and in which every swap with \<open>X\<close> as a
  leg is of one of these two kinds and every swap with \<open>Y\<close> as a leg is of the second
  kind; any other swaps may be present, in any order. Then whenever fillUSDAmounts
  returns, its price map has USDC at 1, \<open>X\<close> at exactly 2 and \<open>Y\<close> at exactly 6; and it
  does return when every leg of the batch carries its amount and the block timestamp of
  line 422 is obtained.
\<close>

theorem propagation_usdc_x_y:
  assumes t1: "\<exists>se \<in> set batch. trades se (Sym ''USDC'') (Sym X) (Fin 2)"
    and t2: "\<exists>se \<in> set batch. trades se (Sym X) (Sym Y) (Fin 3)"
    and onlyX: "\<forall>se \<in> set batch. lsymbol (token0 se) = Sym X \<or> lsymbol (token1 se) = Sym X \<longrightarrow>
                  trades se (Sym ''USDC'') (Sym X) (Fin 2) \<or> trades se (Sym X) (Sym Y) (Fin 3)"
    and onlyY: "\<forall>se \<in> set batch. lsymbol (token0 se) = Sym Y \<or> lsymbol (token1 se) = Sym Y \<longrightarrow>
                  trades se (Sym X) (Sym Y) (Fin 3)"
    and ne: "X \<noteq> []" "Y \<noteq> []" "X \<noteq> Y"
    and X: "Sym X \<notin> set stack0" and Y: "Sym Y \<notin> set stack0"
  shows "(\<forall>st evs snk. fillUSDAmounts srv batch ETH2USD db = Inr (st, evs, snk) \<longrightarrow>
            usd st (Sym ''USDC'') = Some (Fin 1) \<and>
            usd st (Sym X) = Some (Fin 2) \<and> usd st (Sym Y) = Some (Fin 6)) \<and>
         ((\<forall>se \<in> set batch. amount (token0 se) \<noteq> None \<and> amount (token1 se) \<noteq> None) \<and>
          block_timestamp srv (blockNumber (hd batch)) = Inr ts \<longrightarrow>
            (\<exists>st evs snk. fillUSDAmounts srv batch ETH2USD db = Inr (st, evs, snk)))"
proof -
  have prices: "usd st (Sym ''USDC'') = Some (Fin 1) \<and>
        usd st (Sym X) = Some (Fin 2) \<and> usd st (Sym Y) = Some (Fin 6)"
    if run: "fillUSDAmounts srv batch ETH2USD db = Inr (st, evs, snk)" for st evs snk
  proof -
  from t1 have bne: "batch \<noteq> []" by auto
  from X Y have nU: "X \<noteq> ''USDC''" "Y \<noteq> ''USDC''" by (auto simp: stack0_def)
  from fillUSDAmounts_priced [OF run bne] obtain g p0 where
    g: "build_graph [] batch = Inr g" and p0: "traverse g stack0 (seed ETH2USD) = Inr p0"
    and loop: "price_loop g (Moralis_getTokenPrice srv) \<lparr>usd = p0, asked = []\<rparr> batch = Inr (st, evs)"
    by (rule price_batch_parts)
  have gX: "s = Sym ''USDC'' \<and> ratio e = Fin 2 \<or> s = Sym Y"
    if "map_of g s = Some es" "e \<in> set es" "esymbol e = Sym X" for s es e
  proof -
    from build_graph_entry [OF g that(1,2)] that(3) obtain se where
      se: "se \<in> set batch" "trades se s (Sym X) (ratio e)" by auto
    then have "lsymbol (token0 se) = Sym X \<or> lsymbol (token1 se) = Sym X"
      by (auto simp: trades_def)
    with onlyX se(1) have "trades se (Sym ''USDC'') (Sym X) (Fin 2) \<or> trades se (Sym X) (Sym Y) (Fin 3)"
      by blast
    with se(2) ne(3) nU show ?thesis by (auto simp: trades_def)
  qed
  have gY: "s = Sym X \<and> ratio e = Fin 3"
    if "map_of g s = Some es" "e \<in> set es" "esymbol e = Sym Y" for s es e
  proof -
    from build_graph_entry [OF g that(1,2)] that(3) obtain se where
      se: "se \<in> set batch" "trades se s (Sym Y) (ratio e)" by auto
    then have "lsymbol (token0 se) = Sym Y \<or> lsymbol (token1 se) = Sym Y"
      by (auto simp: trades_def)
    with onlyY se(1) have "trades se (Sym X) (Sym Y) (Fin 3)" by blast
    with se(2) ne(3) show ?thesis by (auto simp: trades_def)
  qed
  have sU: "seed ETH2USD (Sym ''USDC'') = Some (Fin 1)" by (simp add: seed_apply stack0_def)
  have sX: "seed ETH2USD (Sym X) = None" and sY: "seed ETH2USD (Sym Y) = None"
    using X Y dom_seed [of ETH2USD] by auto
  from sX have JX: "seed ETH2USD (Sym X) = None \<or> seed ETH2USD (Sym X) = Some (Fin 2)" ..
  from sY have JY: "seed ETH2USD (Sym Y) = None \<or>
      seed ETH2USD (Sym Y) = Some (Fin 6) \<and> seed ETH2USD (Sym X) = Some (Fin 2)" ..
  have "p0 (Sym ''USDC'') = Some (Fin 1) \<and>
         (p0 (Sym X) = None \<or> p0 (Sym X) = Some (Fin 2)) \<and>
         (p0 (Sym Y) = None \<or> p0 (Sym Y) = Some (Fin 6) \<and> p0 (Sym X) = Some (Fin 2))"
    using p0 sU JX JY gX gY ne(3) by (rule traverse_usdc_x_y)
  then have
    J: "p0 (Sym ''USDC'') = Some (Fin 1)" "p0 (Sym X) = None \<or> p0 (Sym X) = Some (Fin 2)"
       "p0 (Sym Y) = None \<or> p0 (Sym Y) = Some (Fin 6) \<and> p0 (Sym X) = Some (Fin 2)"
    by blast+
  from t1 obtain se1 where se1: "se1 \<in> set batch" "trades se1 (Sym ''USDC'') (Sym X) (Fin 2)" by blast
  from t2 obtain se2 where se2: "se2 \<in> set batch" "trades se2 (Sym X) (Sym Y) (Fin 3)" by blast
  have tU: "truthy (Sym ''USDC'')" and tX: "truthy (Sym X)" and tY: "truthy (Sym Y)"
    using ne by (simp_all add: truthy_def)
  note e1 = trades_edge [OF g se1 tU tX] and e2 = trades_edge [OF g se2 tX tY]
  note c = anchors_closed(1) [OF p0]
  from J(1) have "Sym ''USDC'' \<in> dom p0" by blast
  with e1 c have dX: "Sym X \<in> dom p0" by blast
  with e2 c have dY: "Sym Y \<in> dom p0" by blast
  from dX dY J have "p0 (Sym X) = Some (Fin 2)" "p0 (Sym Y) = Some (Fin 6)" by auto
  moreover from price_loop_mono [OF loop] have "p0 \<subseteq>\<^sub>m usd st" by simp
  ultimately show "usd st (Sym ''USDC'') = Some (Fin 1) \<and>
        usd st (Sym X) = Some (Fin 2) \<and> usd st (Sym Y) = Some (Fin 6)"
    using J(1) by (simp add: map_le_Some)
  qed
  have returns: "\<exists>st evs snk. fillUSDAmounts srv batch ETH2USD db = Inr (st, evs, snk)"
    if a: "(\<forall>se \<in> set batch. amount (token0 se) \<noteq> None \<and> amount (token1 se) \<noteq> None) \<and>
          block_timestamp srv (blockNumber (hd batch)) = Inr ts"
  proof -
    from t1 have bne: "batch \<noteq> []" by auto
    from a price_batch_total [of batch "Moralis_getTokenPrice srv" ETH2USD] obtain st evs where
      "price_batch (Moralis_getTokenPrice srv) batch ETH2USD = Inr (st, evs)" by blast
    from fillUSDAmounts_of_price_batch [OF this bne, of ts db] a
    show ?thesis by blast
  qed
  from prices returns show ?thesis by blast
qed

theorem propagation_usdc_x_y_witness:
  "trades (swap_of (leg_of ''0xa'' ''USDC'' 2) (leg_of ''0xx'' ''X'' 1)) (Sym ''USDC'') (Sym ''X'') (Fin 2) \<and>
   trades (swap_of (leg_of ''0xy'' ''Y'' 5) (leg_of ''0xx'' ''X'' 15)) (Sym ''X'') (Sym ''Y'') (Fin 3) \<and>
   Sym ''X'' \<notin> set stack0 \<and> Sym ''Y'' \<notin> set stack0 \<and>
   (\<exists>st evs snk.
      fillUSDAmounts (services_of (\<lambda>i. Inl Rejected))
        [swap_of (leg_of ''0xy'' ''Y'' 5) (leg_of ''0xx'' ''X'' 15),
         swap_of (leg_of ''0xf'' ''FOO'' 1) (leg_of ''0xb'' ''BAR'' 4),
         swap_of (leg_of ''0xa'' ''USDC'' 2) (leg_of ''0xx'' ''X'' 1)] (Fin 3000) 0 = Inr (st, evs, snk) \<and>
      usd st (Sym ''USDC'') = Some (Fin 1) \<and>
      usd st (Sym ''X'') = Some (Fin 2) \<and> usd st (Sym ''Y'') = Some (Fin 6))"
proof -
  let ?se1 = "swap_of (leg_of ''0xa'' ''USDC'' 2) (leg_of ''0xx'' ''X'' 1)"
  let ?se2 = "swap_of (leg_of ''0xy'' ''Y'' 5) (leg_of ''0xx'' ''X'' 15)"
  let ?se3 = "swap_of (leg_of ''0xf'' ''FOO'' 1) (leg_of ''0xb'' ''BAR'' 4)"
  let ?srv = "services_of (\<lambda>i. Inl Rejected)"
  have t1: "trades ?se1 (Sym ''USDC'') (Sym ''X'') (Fin 2)"
    by (simp add: trades_def swap_of_def leg_of_def call_dividedBy_def)
  have t2: "trades ?se2 (Sym ''X'') (Sym ''Y'') (Fin 3)"
    by (simp add: trades_def swap_of_def leg_of_def call_dividedBy_def)
  have s3: "lsymbol (token0 ?se3) = Sym ''FOO''" "lsymbol (token1 ?se3) = Sym ''BAR''"
    and s1: "lsymbol (token0 ?se1) = Sym ''USDC''" "lsymbol (token1 ?se1) = Sym ''X''"
    and s2: "lsymbol (token0 ?se2) = Sym ''Y''" "lsymbol (token1 ?se2) = Sym ''X''"
    by (simp_all add: swap_of_def leg_of_def)
  have h1: "\<exists>se \<in> set [?se2, ?se3, ?se1]. trades se (Sym ''USDC'') (Sym ''X'') (Fin 2)"
    using t1 by simp
  have h2: "\<exists>se \<in> set [?se2, ?se3, ?se1]. trades se (Sym ''X'') (Sym ''Y'') (Fin 3)"
    using t2 by simp
  have oX: "\<forall>se \<in> set [?se2, ?se3, ?se1].
      lsymbol (token0 se) = Sym ''X'' \<or> lsymbol (token1 se) = Sym ''X'' \<longrightarrow>
      trades se (Sym ''USDC'') (Sym ''X'') (Fin 2) \<or> trades se (Sym ''X'') (Sym ''Y'') (Fin 3)"
    using t1 t2 s3 by simp
  have oY: "\<forall>se \<in> set [?se2, ?se3, ?se1].
      lsymbol (token0 se) = Sym ''Y'' \<or> lsymbol (token1 se) = Sym ''Y'' \<longrightarrow>
      trades se (Sym ''X'') (Sym ''Y'') (Fin 3)"
    using t2 s1 s3 by simp
  have ne: "''X'' \<noteq> []" "''Y'' \<noteq> []" "''X'' \<noteq> ''Y''" by simp_all
  have X: "Sym ''X'' \<notin> set stack0" and Y: "Sym ''Y'' \<notin> set stack0"
    by (simp_all add: stack0_def)
  have am: "(\<forall>se \<in> set [?se2, ?se3, ?se1]. amount (token0 se) \<noteq> None \<and> amount (token1 se) \<noteq> None) \<and>
      block_timestamp ?srv (blockNumber (hd [?se2, ?se3, ?se1])) = Inr ''2024-01-01T00:00:00.000Z''"
    by (simp add: swap_of_def leg_of_def services_of_def block_timestamp_def)
  note th = propagation_usdc_x_y [OF h1 h2 oX oY ne X Y, of ?srv "Fin 3000" 0 "''2024-01-01T00:00:00.000Z''"]
  from th am obtain st evs snk where
    run: "fillUSDAmounts ?srv [?se2, ?se3, ?se1] (Fin 3000) 0 = Inr (st, evs, snk)" by blast
  with th have "usd st (Sym ''USDC'') = Some (Fin 1) \<and>
      usd st (Sym ''X'') = Some (Fin 2) \<and> usd st (Sym ''Y'') = Some (Fin 6)" by blast
  with run t1 t2 X Y show ?thesis by blast
qed

section \<open>First-reached price wins\<close>

lemma relax_first:
  "relax s es (p, st) = Inr (p', st') \<Longrightarrow> p b = None \<Longrightarrow> p s = Some v \<Longrightarrow>
     find (\<lambda>e. esymbol e = b) es = Some e \<Longrightarrow> p' b = Some (times v (ratio e))"
proof (induction es arbitrary: p st)
  case Nil
  then show ?case by simp
next
  case (Cons r rs)
  from Cons.prems(2,3) have sb: "s \<noteq> b" by auto
  show ?case
  proof (cases "esymbol r = b")
    case True
    with Cons.prems have e: "e = r" by simp
    from True Cons.prems have
      rec: "relax s rs (p(b \<mapsto> times v (ratio r)), st @ [b]) = Inr (p', st')"
      by (auto simp: call_times_def)
    from relax_mono [OF rec] e show ?thesis by (auto simp: map_le_def)
  next
    case False
    with Cons.prems(4) have f: "find (\<lambda>e. esymbol e = b) rs = Some e" by simp
    show ?thesis
    proof (cases "p (esymbol r) = None")
      case True
      with Cons.prems obtain w where
        rec: "relax s rs (p(esymbol r \<mapsto> w), st @ [esymbol r]) = Inr (p', st')"
        by (auto split: sum.splits)
      from True Cons.prems(3) have "s \<noteq> esymbol r" by auto
      with False Cons.prems(2,3) have "(p(esymbol r \<mapsto> w)) b = None" "(p(esymbol r \<mapsto> w)) s = Some v"
        by simp_all
      from Cons.IH [OF rec this f] show ?thesis .
    next
      case False
      with Cons.prems have rec: "relax s rs (p, st) = Inr (p', st')" by simp
      from Cons.IH [OF rec Cons.prems(2,3) f] show ?thesis .
    qed
  qed
qed

text \<open>
  C5. A node that has a price is never given another one. Whatever the graph, the stack
  and the price map from which a traversal continues, a price present in the map is the
  price in the result of the traversal; if the node on top of the stack has a price
  \<open>v\<close> and \<open>b\<close> has none, the result prices \<open>b\<close> at \<open>v\<close> times the ratio of the first
  edge to \<open>b\<close> in the adjacency list of that node, whatever other paths reach \<open>b\<close>
  later; and in the price map of a whole batch, fallback traversals included, WETH keeps
  the reference rate and every other anchor keeps the price 1.
\<close>

theorem priced_node_never_repriced:
  "(traverse g stack p = Inr P \<and> p b = Some v \<longrightarrow> P b = Some v) \<and>
   (traverse g stack p = Inr P \<and> stack \<noteq> [] \<and> map_of g (last stack) = Some es \<and>
      p (last stack) = Some v \<and> p b = None \<and> find (\<lambda>e. esymbol e = b) es = Some e
      \<longrightarrow> P b = Some (times v (ratio e))) \<and>
   (price_batch moralis swapEvents ETH2USD = Inr (st, evs) \<longrightarrow>
      usd st (Sym ''WETH'') = Some ETH2USD \<and>
      (\<forall>s \<in> set (butlast stack0). usd st s = Some (Fin 1)))"
proof (intro conjI impI)
  assume "traverse g stack p = Inr P \<and> p b = Some v"
  with traverse_mono [of g stack p P] show "P b = Some v" by (force simp: map_le_def dom_def)
next
  assume a: "traverse g stack p = Inr P \<and> stack \<noteq> [] \<and> map_of g (last stack) = Some es \<and>
      p (last stack) = Some v \<and> p b = None \<and> find (\<lambda>e. esymbol e = b) es = Some e"
  then have "p (last stack) \<noteq> None" by simp
  from relax_total [of p "last stack" es "butlast stack", OF this] obtain p' stack' where
    r: "relax (last stack) es (p, butlast stack) = Inr (p', stack')" by (metis surj_pair)
  from a relax_first [OF r] have "p' b = Some (times v (ratio e))" by blast
  moreover from a have "stack \<noteq> []" "map_of g (last stack) = Some es" by simp_all
  from traverse_step [OF this r] a have "traverse g stack' p' = Inr P" by simp
  ultimately show "P b = Some (times v (ratio e))"
    using traverse_mono [of g stack' p' P] by (force simp: map_le_def dom_def)
next
  assume a: "price_batch moralis swapEvents ETH2USD = Inr (st, evs)"
  have w: "seed ETH2USD (Sym ''WETH'') = Some ETH2USD" by (simp add: seed_apply stack0_def)
  with price_batch_mono [OF a] show "usd st (Sym ''WETH'') = Some ETH2USD"
    by (force simp: map_le_def dom_def)
  show "\<forall>s \<in> set (butlast stack0). usd st s = Some (Fin 1)"
  proof
    fix s assume "s \<in> set (butlast stack0)"
    then have "seed ETH2USD s = Some (Fin 1)" by (simp add: seed_apply)
    with price_batch_mono [OF a] show "usd st s = Some (Fin 1)" by (force simp: map_le_def dom_def)
  qed
qed

lemma diamond_graph:
  "build_graph [] [swap_of (leg_of ''0xa'' ''USDC'' 2) (leg_of ''0xz'' ''Z'' 1),
                   swap_of (leg_of ''0xb'' ''USDT'' 3) (leg_of ''0xz'' ''Z'' 1)] =
     Inr [(Sym ''USDC'', [Edge (Sym ''Z'') (Fin 2)]),
          (Sym ''Z'', [Edge (Sym ''USDC'') (Fin (1 / 2)), Edge (Sym ''USDT'') (Fin (round20 (1 / 3)))]),
          (Sym ''USDT'', [Edge (Sym ''Z'') (Fin 3)])]"
  by (simp add: swap_of_def leg_of_def truthy_def call_dividedBy_def addEdge_def)

lemma diamond_prices:
  "\<exists>evs. price_batch (\<lambda>i. Inl Rejected)
       [swap_of (leg_of ''0xa'' ''USDC'' 2) (leg_of ''0xz'' ''Z'' 1),
        swap_of (leg_of ''0xb'' ''USDT'' 3) (leg_of ''0xz'' ''Z'' 1)] (Fin 3000) =
     Inr (\<lparr>usd = (seed (Fin 3000))(Sym ''Z'' \<mapsto> Fin 3), asked = []\<rparr>, evs)"
proof -
  let ?g = "[(Sym ''USDC'', [Edge (Sym ''Z'') (Fin 2)]),
          (Sym ''Z'', [Edge (Sym ''USDC'') (Fin (1 / 2)), Edge (Sym ''USDT'') (Fin (round20 (1 / 3)))]),
          (Sym ''USDT'', [Edge (Sym ''Z'') (Fin 3)])]"
  define pre where "pre = butlast (butlast stack0)"
  have split: "stack0 = pre @ [Sym ''USDT'', Sym ''WETH'']"
    by (simp add: pre_def stack0_def)
  have top: "traverse ?g [Sym ''USDT'', Sym ''WETH''] (seed (Fin 3000)) =
      Inr ((seed (Fin 3000))(Sym ''Z'' \<mapsto> Fin 3))"
    by (simp add: traverse.simps seed_apply stack0_def call_times_def)
  have rest: "traverse ?g pre ((seed (Fin 3000))(Sym ''Z'' \<mapsto> Fin 3)) =
      Inr ((seed (Fin 3000))(Sym ''Z'' \<mapsto> Fin 3))"
    unfolding pre_def
    by (simp add: traverse.simps seed_apply stack0_def call_times_def)
  have tr: "traverse ?g stack0 (seed (Fin 3000)) = Inr ((seed (Fin 3000))(Sym ''Z'' \<mapsto> Fin 3))"
    unfolding split by (simp add: traverse_append top rest)
  have pl: "\<exists>evs. price_loop ?g (\<lambda>i. Inl Rejected)
      \<lparr>usd = (seed (Fin 3000))(Sym ''Z'' \<mapsto> Fin 3), asked = []\<rparr>
       [swap_of (leg_of ''0xa'' ''USDC'' 2) (leg_of ''0xz'' ''Z'' 1),
        swap_of (leg_of ''0xb'' ''USDT'' 3) (leg_of ''0xz'' ''Z'' 1)] =
      Inr (\<lparr>usd = (seed (Fin 3000))(Sym ''Z'' \<mapsto> Fin 3), asked = []\<rparr>, evs)"
    by (rule price_loop_all_priced) (simp add: swap_of_def leg_of_def seed_apply stack0_def)
  show ?thesis using pl
    by (simp add: price_batch_def diamond_graph tr del: price_loop.simps build_graph.simps)
qed

theorem priced_node_never_repriced_witness:
  "traverse [(Sym ''USDT'', [Edge (Sym ''Z'') (Fin 3)])] [Sym ''USDT''] (seed (Fin 3000)) =
     Inr ((seed (Fin 3000))(Sym ''Z'' \<mapsto> Fin 3)) \<and>
   seed (Fin 3000) (Sym ''USDT'') = Some (Fin 1) \<and>
   ((seed (Fin 3000))(Sym ''Z'' \<mapsto> Fin 3)) (Sym ''USDT'') = Some (Fin 1) \<and>
   seed (Fin 3000) (Sym ''Z'') = None \<and>
   find (\<lambda>e. esymbol e = Sym ''Z'') [Edge (Sym ''Z'') (Fin 3)] = Some (Edge (Sym ''Z'') (Fin 3)) \<and>
   ((seed (Fin 3000))(Sym ''Z'' \<mapsto> Fin 3)) (Sym ''Z'') = Some (times (Fin 1) (Fin 3)) \<and>
   (\<exists>st evs.
      price_batch (\<lambda>i. Inl Rejected)
        [swap_of (leg_of ''0xa'' ''USDC'' 2) (leg_of ''0xz'' ''Z'' 1),
         swap_of (leg_of ''0xb'' ''USDT'' 3) (leg_of ''0xz'' ''Z'' 1)] (Fin 3000) = Inr (st, evs) \<and>
      usd st (Sym ''Z'') = Some (Fin 3) \<and>
      usd st (Sym ''WETH'') = Some (Fin 3000) \<and> usd st (Sym ''USDC'') = Some (Fin 1))"
proof -
  let ?g = "[(Sym ''USDT'', [Edge (Sym ''Z'') (Fin 3)])]"
  let ?p = "seed (Fin 3000)"
  let ?P = "(seed (Fin 3000))(Sym ''Z'' \<mapsto> Fin 3)"
  have tr: "traverse ?g [Sym ''USDT''] ?p = Inr ?P"
    by (simp add: traverse.simps seed_apply stack0_def call_times_def)
  have a: "?p (Sym ''USDT'') = Some (Fin 1)" "?p (Sym ''Z'') = None"
    by (simp_all add: seed_apply stack0_def)
  have f: "find (\<lambda>e. esymbol e = Sym ''Z'') [Edge (Sym ''Z'') (Fin 3)] = Some (Edge (Sym ''Z'') (Fin 3))"
    by simp
  have m: "map_of ?g (last [Sym ''USDT'']) = Some [Edge (Sym ''Z'') (Fin 3)]" by simp
  note t1 = priced_node_never_repriced [of ?g "[Sym ''USDT'']" ?p ?P "Sym ''USDT''" "Fin 1"]
  note t2 = priced_node_never_repriced [of ?g "[Sym ''USDT'']" ?p ?P "Sym ''Z''" "Fin 1"
      "[Edge (Sym ''Z'') (Fin 3)]" "Edge (Sym ''Z'') (Fin 3)"]
  from t1 tr a have c1: "?P (Sym ''USDT'') = Some (Fin 1)" by blast
  from t2 tr a f m have c2: "?P (Sym ''Z'') = Some (times (Fin 1) (ratio (Edge (Sym ''Z'') (Fin 3))))"
    by simp
  from diamond_prices obtain evs where
    pb: "price_batch (\<lambda>i. Inl Rejected)
        [swap_of (leg_of ''0xa'' ''USDC'' 2) (leg_of ''0xz'' ''Z'' 1),
         swap_of (leg_of ''0xb'' ''USDT'' 3) (leg_of ''0xz'' ''Z'' 1)] (Fin 3000) =
      Inr (\<lparr>usd = ?P, asked = []\<rparr>, evs)" by blast
  note t3 = priced_node_never_repriced [of _ _ _ _ _ _ _ _ "\<lambda>i. Inl Rejected"
      "[swap_of (leg_of ''0xa'' ''USDC'' 2) (leg_of ''0xz'' ''Z'' 1),
        swap_of (leg_of ''0xb'' ''USDT'' 3) (leg_of ''0xz'' ''Z'' 1)]" "Fin 3000"
      "\<lparr>usd = ?P, asked = []\<rparr>" evs]
  from t3 pb have c3: "usd \<lparr>usd = ?P, asked = []\<rparr> (Sym ''WETH'') = Some (Fin 3000)"
    "usd \<lparr>usd = ?P, asked = []\<rparr> (Sym ''USDC'') = Some (Fin 1)"
    by (simp_all add: stack0_def)
  have "usd \<lparr>usd = ?P, asked = []\<rparr> (Sym ''Z'') = Some (Fin 3)" by simp
  with pb c3 have "\<exists>st evs.
      price_batch (\<lambda>i. Inl Rejected)
        [swap_of (leg_of ''0xa'' ''USDC'' 2) (leg_of ''0xz'' ''Z'' 1),
         swap_of (leg_of ''0xb'' ''USDT'' 3) (leg_of ''0xz'' ''Z'' 1)] (Fin 3000) = Inr (st, evs) \<and>
      usd st (Sym ''Z'') = Some (Fin 3) \<and>
      usd st (Sym ''WETH'') = Some (Fin 3000) \<and> usd st (Sym ''USDC'') = Some (Fin 1)"
    by blast
  with tr a f c1 c2 show ?thesis by simp
qed

section \<open>Order of the swaps in a batch\<close>

lemma traverse_stack0_usdc:
  assumes "\<And>s. s \<in> set stack0 \<Longrightarrow> s \<noteq> Sym ''USDC'' \<Longrightarrow> map_of g s = None"
  shows "traverse g stack0 p =
           (case traverse g [Sym ''USDC''] p of Inl e \<Rightarrow> Inl e
            | Inr p' \<Rightarrow> traverse g (butlast (butlast (butlast stack0))) p')"
proof -
  define pre where "pre = butlast (butlast (butlast stack0))"
  have split: "stack0 = (pre @ [Sym ''USDC'']) @ [Sym ''USDT'', Sym ''WETH'']"
    by (simp add: pre_def stack0_def)
  have "traverse g [Sym ''USDT'', Sym ''WETH''] p = Inr p"
    by (rule traverse_no_keys) (auto intro!: assms simp: stack0_def)
  then show ?thesis
    unfolding pre_def [symmetric]
    by (subst split) (simp add: traverse_append del: append_assoc append.simps)
qed

lemma traverse_pre_no_keys:
  assumes "\<And>s. s \<in> set stack0 \<Longrightarrow> s \<noteq> Sym ''USDC'' \<Longrightarrow> map_of g s = None"
  shows "traverse g (butlast (butlast (butlast stack0))) p = Inr p"
proof (rule traverse_no_keys, rule ballI)
  fix s assume s: "s \<in> set (butlast (butlast (butlast stack0)))"
  then have "s \<in> set stack0" by (auto dest!: in_set_butlastD)
  moreover from s have "s \<noteq> Sym ''USDC''" by (auto simp: stack0_def)
  ultimately show "map_of g s = None" by (rule assms)
qed

lemma two_rates_graph:
  "build_graph [] [swap_of (leg_of ''0xa'' ''USDC'' a) (leg_of ''0xx'' ''X'' 1),
                   swap_of (leg_of ''0xa'' ''USDC'' b) (leg_of ''0xx'' ''X'' 1)] =
     Inr [(Sym ''USDC'', [Edge (Sym ''X'') (dividedBy (Fin a) (Fin 1)), Edge (Sym ''X'') (dividedBy (Fin b) (Fin 1))]),
          (Sym ''X'', [Edge (Sym ''USDC'') (dividedBy (Fin 1) (Fin a)), Edge (Sym ''USDC'') (dividedBy (Fin 1) (Fin b))])]"
  by (simp add: swap_of_def leg_of_def truthy_def call_dividedBy_def addEdge_def del: dividedBy.simps)

lemma two_rates_prices:
  "\<exists>evs. price_batch m
       [swap_of (leg_of ''0xa'' ''USDC'' a) (leg_of ''0xx'' ''X'' 1),
        swap_of (leg_of ''0xa'' ''USDC'' b) (leg_of ''0xx'' ''X'' 1)] E =
     Inr (\<lparr>usd = (seed E)(Sym ''X'' \<mapsto> times (Fin 1) (dividedBy (Fin a) (Fin 1))), asked = []\<rparr>, evs)"
proof -
  let ?g = "[(Sym ''USDC'', [Edge (Sym ''X'') (dividedBy (Fin a) (Fin 1)), Edge (Sym ''X'') (dividedBy (Fin b) (Fin 1))]),
          (Sym ''X'', [Edge (Sym ''USDC'') (dividedBy (Fin 1) (Fin a)), Edge (Sym ''USDC'') (dividedBy (Fin 1) (Fin b))])]"
  let ?P = "(seed E)(Sym ''X'' \<mapsto> times (Fin 1) (dividedBy (Fin a) (Fin 1)))"
  have keys: "\<And>s. s \<in> set stack0 \<Longrightarrow> s \<noteq> Sym ''USDC'' \<Longrightarrow> map_of ?g s = None"
    by (auto simp: stack0_def)
  have "traverse ?g [Sym ''USDC''] (seed E) = Inr ?P"
    by (simp add: traverse.simps seed_apply stack0_def call_times_def
          del: dividedBy.simps times.simps)
  then have tr: "traverse ?g stack0 (seed E) = Inr ?P"
    by (simp add: traverse_stack0_usdc [OF keys] traverse_pre_no_keys [OF keys]
          del: dividedBy.simps times.simps)
  have pl: "\<exists>evs. price_loop ?g m \<lparr>usd = ?P, asked = []\<rparr>
       [swap_of (leg_of ''0xa'' ''USDC'' a) (leg_of ''0xx'' ''X'' 1),
        swap_of (leg_of ''0xa'' ''USDC'' b) (leg_of ''0xx'' ''X'' 1)] =
      Inr (\<lparr>usd = ?P, asked = []\<rparr>, evs)"
    by (rule price_loop_all_priced) (simp add: swap_of_def leg_of_def seed_apply stack0_def)
  show ?thesis using pl
    by (simp add: price_batch_def two_rates_graph tr
          del: price_loop.simps build_graph.simps dividedBy.simps times.simps)
qed

lemma two_orders:
  "\<exists>st evs snk st' evs' snk'.
     mset [swap_of (leg_of ''0xa'' ''USDC'' 2) (leg_of ''0xx'' ''X'' 1),
           swap_of (leg_of ''0xa'' ''USDC'' 3) (leg_of ''0xx'' ''X'' 1)] =
     mset [swap_of (leg_of ''0xa'' ''USDC'' 3) (leg_of ''0xx'' ''X'' 1),
           swap_of (leg_of ''0xa'' ''USDC'' 2) (leg_of ''0xx'' ''X'' 1)] \<and>
     fillUSDAmounts (services_of (\<lambda>i. Inl Rejected))
       [swap_of (leg_of ''0xa'' ''USDC'' 2) (leg_of ''0xx'' ''X'' 1),
        swap_of (leg_of ''0xa'' ''USDC'' 3) (leg_of ''0xx'' ''X'' 1)] (Fin 3000) 0 = Inr (st, evs, snk) \<and>
     fillUSDAmounts (services_of (\<lambda>i. Inl Rejected))
       [swap_of (leg_of ''0xa'' ''USDC'' 3) (leg_of ''0xx'' ''X'' 1),
        swap_of (leg_of ''0xa'' ''USDC'' 2) (leg_of ''0xx'' ''X'' 1)] (Fin 3000) 0 = Inr (st', evs', snk') \<and>
     usd st (Sym ''X'') = Some (Fin 2) \<and> usd st' (Sym ''X'') = Some (Fin 3)"
proof -
  let ?srv = "services_of (\<lambda>i. Inl Rejected)"
  let ?b = "[swap_of (leg_of ''0xa'' ''USDC'' 2) (leg_of ''0xx'' ''X'' 1),
           swap_of (leg_of ''0xa'' ''USDC'' 3) (leg_of ''0xx'' ''X'' 1)]"
  let ?b' = "[swap_of (leg_of ''0xa'' ''USDC'' 3) (leg_of ''0xx'' ''X'' 1),
           swap_of (leg_of ''0xa'' ''USDC'' 2) (leg_of ''0xx'' ''X'' 1)]"
  from two_rates_prices [of "Moralis_getTokenPrice ?srv" 2 3 "Fin 3000"] obtain evs where
    p: "price_batch (Moralis_getTokenPrice ?srv) ?b (Fin 3000) =
      Inr (\<lparr>usd = (seed (Fin 3000))(Sym ''X'' \<mapsto> Fin 2), asked = []\<rparr>, evs)" by auto
  from two_rates_prices [of "Moralis_getTokenPrice ?srv" 3 2 "Fin 3000"] obtain evs' where
    p': "price_batch (Moralis_getTokenPrice ?srv) ?b' (Fin 3000) =
      Inr (\<lparr>usd = (seed (Fin 3000))(Sym ''X'' \<mapsto> Fin 3), asked = []\<rparr>, evs')" by auto
  have ts: "block_timestamp ?srv (blockNumber (hd ?b)) = Inr ''2024-01-01T00:00:00.000Z''"
    "block_timestamp ?srv (blockNumber (hd ?b')) = Inr ''2024-01-01T00:00:00.000Z''"
    by (simp_all add: services_of_def block_timestamp_def client_query_def)
  note f = fillUSDAmounts_of_price_batch [OF p _ ts(1), of 0]
  note f' = fillUSDAmounts_of_price_batch [OF p' _ ts(2), of 0]
  have "mset ?b = mset ?b'" by (simp add: add.commute)
  moreover have "usd \<lparr>usd = (seed (Fin 3000))(Sym ''X'' \<mapsto> Fin 2), asked = []\<rparr> (Sym ''X'') = Some (Fin 2)"
    "usd \<lparr>usd = (seed (Fin 3000))(Sym ''X'' \<mapsto> Fin 3), asked = []\<rparr> (Sym ''X'') = Some (Fin 3)"
    by simp_all
  ultimately show ?thesis using f f' by blast
qed

text \<open>
  C4, as stated, fails: two swaps of USDC against \<open>X\<close>, one at ratio 2 and one at ratio
  3, price \<open>X\<close> at 2 in one order and at 3 in the other, since the first edge to \<open>X\<close>
  in the adjacency list of USDC decides.
\<close>

theorem price_depends_on_order:
  "\<exists>st evs snk st' evs' snk'.
     mset [swap_of (leg_of ''0xa'' ''USDC'' 2) (leg_of ''0xx'' ''X'' 1),
           swap_of (leg_of ''0xa'' ''USDC'' 3) (leg_of ''0xx'' ''X'' 1)] =
     mset [swap_of (leg_of ''0xa'' ''USDC'' 3) (leg_of ''0xx'' ''X'' 1),
           swap_of (leg_of ''0xa'' ''USDC'' 2) (leg_of ''0xx'' ''X'' 1)] \<and>
     fillUSDAmounts (services_of (\<lambda>i. Inl Rejected))
       [swap_of (leg_of ''0xa'' ''USDC'' 2) (leg_of ''0xx'' ''X'' 1),
        swap_of (leg_of ''0xa'' ''USDC'' 3) (leg_of ''0xx'' ''X'' 1)] (Fin 3000) 0 = Inr (st, evs, snk) \<and>
     fillUSDAmounts (services_of (\<lambda>i. Inl Rejected))
       [swap_of (leg_of ''0xa'' ''USDC'' 3) (leg_of ''0xx'' ''X'' 1),
        swap_of (leg_of ''0xa'' ''USDC'' 2) (leg_of ''0xx'' ''X'' 1)] (Fin 3000) 0 = Inr (st', evs', snk') \<and>
     usd st (Sym ''X'') = Some (Fin 2) \<and> usd st' (Sym ''X'') = Some (Fin 3) \<and>
     usd st (Sym ''X'') \<noteq> usd st' (Sym ''X'')"
proof -
  from two_orders obtain st evs snk st' evs' snk' where
    r: "mset [swap_of (leg_of ''0xa'' ''USDC'' 2) (leg_of ''0xx'' ''X'' 1),
           swap_of (leg_of ''0xa'' ''USDC'' 3) (leg_of ''0xx'' ''X'' 1)] =
     mset [swap_of (leg_of ''0xa'' ''USDC'' 3) (leg_of ''0xx'' ''X'' 1),
           swap_of (leg_of ''0xa'' ''USDC'' 2) (leg_of ''0xx'' ''X'' 1)]"
    "fillUSDAmounts (services_of (\<lambda>i. Inl Rejected))
       [swap_of (leg_of ''0xa'' ''USDC'' 2) (leg_of ''0xx'' ''X'' 1),
        swap_of (leg_of ''0xa'' ''USDC'' 3) (leg_of ''0xx'' ''X'' 1)] (Fin 3000) 0 = Inr (st, evs, snk)"
    "fillUSDAmounts (services_of (\<lambda>i. Inl Rejected))
       [swap_of (leg_of ''0xa'' ''USDC'' 3) (leg_of ''0xx'' ''X'' 1),
        swap_of (leg_of ''0xa'' ''USDC'' 2) (leg_of ''0xx'' ''X'' 1)] (Fin 3000) 0 = Inr (st', evs', snk')"
    "usd st (Sym ''X'') = Some (Fin 2)" "usd st' (Sym ''X'') = Some (Fin 3)"
    by blast
  from r(4,5) have "usd st (Sym ''X'') \<noteq> usd st' (Sym ''X'')" by simp
  with r show ?thesis by blast
qed

text \<open>
  C4, amended. For two orderings of the same multiset of swaps, the same reference rate
  and the same oracle, whenever fillUSDAmounts returns on both, the two price maps price
  the same set of symbols (a symbol is absent in one exactly when it is absent in the
  other) and give every anchor the same price.
\<close>

theorem priced_symbols_order_independent:
  assumes perm: "mset swapEvents = mset swapEvents'"
    and run: "fillUSDAmounts srv swapEvents ETH2USD db = Inr (st, evs, snk)"
    and run': "fillUSDAmounts srv swapEvents' ETH2USD db' = Inr (st', evs', snk')"
  shows "dom (usd st) = dom (usd st') \<and> (\<forall>s \<in> set stack0. usd st s = usd st' s)"
proof (cases "swapEvents = []")
  case True
  with perm have "swapEvents' = []" by simp
  with True run run' show ?thesis by (simp add: fillUSDAmounts_def)
next
  case False
  with perm have ne': "swapEvents' \<noteq> []" by auto
  note p = fillUSDAmounts_priced [OF run False]
  note p' = fillUSDAmounts_priced [OF run' ne']
  from perm have s: "set swapEvents = set swapEvents'" by (rule mset_eq_setD)
  have "dom (usd st) = dom (usd st')"
    unfolding price_batch_dom [OF p] price_batch_dom [OF p'] swap_edges_set [OF s] s ..
  moreover have "\<forall>s \<in> set stack0. usd st s = usd st' s"
  proof
    fix s assume "s \<in> set stack0"
    then have "s \<in> dom (seed ETH2USD)" by (simp add: dom_seed)
    with price_batch_mono [OF p] price_batch_mono [OF p'] show "usd st s = usd st' s"
      by (simp add: map_le_def)
  qed
  ultimately show ?thesis ..
qed

theorem priced_symbols_order_independent_witness:
  "\<exists>st evs snk st' evs' snk'.
     mset [swap_of (leg_of ''0xa'' ''USDC'' 2) (leg_of ''0xx'' ''X'' 1),
           swap_of (leg_of ''0xa'' ''USDC'' 3) (leg_of ''0xx'' ''X'' 1)] =
     mset [swap_of (leg_of ''0xa'' ''USDC'' 3) (leg_of ''0xx'' ''X'' 1),
           swap_of (leg_of ''0xa'' ''USDC'' 2) (leg_of ''0xx'' ''X'' 1)] \<and>
     fillUSDAmounts (services_of (\<lambda>i. Inl Rejected))
       [swap_of (leg_of ''0xa'' ''USDC'' 2) (leg_of ''0xx'' ''X'' 1),
        swap_of (leg_of ''0xa'' ''USDC'' 3) (leg_of ''0xx'' ''X'' 1)] (Fin 3000) 0 = Inr (st, evs, snk) \<and>
     fillUSDAmounts (services_of (\<lambda>i. Inl Rejected))
       [swap_of (leg_of ''0xa'' ''USDC'' 3) (leg_of ''0xx'' ''X'' 1),
        swap_of (leg_of ''0xa'' ''USDC'' 2) (leg_of ''0xx'' ''X'' 1)] (Fin 3000) 0 = Inr (st', evs', snk') \<and>
     dom (usd st) = dom (usd st') \<and> usd st (Sym ''USDC'') = usd st' (Sym ''USDC'')"
proof -
  from two_orders obtain st evs snk st' evs' snk' where
    m: "mset [swap_of (leg_of ''0xa'' ''USDC'' 2) (leg_of ''0xx'' ''X'' 1),
           swap_of (leg_of ''0xa'' ''USDC'' 3) (leg_of ''0xx'' ''X'' 1)] =
     mset [swap_of (leg_of ''0xa'' ''USDC'' 3) (leg_of ''0xx'' ''X'' 1),
           swap_of (leg_of ''0xa'' ''USDC'' 2) (leg_of ''0xx'' ''X'' 1)]"
    and r: "fillUSDAmounts (services_of (\<lambda>i. Inl Rejected))
       [swap_of (leg_of ''0xa'' ''USDC'' 2) (leg_of ''0xx'' ''X'' 1),
        swap_of (leg_of ''0xa'' ''USDC'' 3) (leg_of ''0xx'' ''X'' 1)] (Fin 3000) 0 = Inr (st, evs, snk)"
    and r': "fillUSDAmounts (services_of (\<lambda>i. Inl Rejected))
       [swap_of (leg_of ''0xa'' ''USDC'' 3) (leg_of ''0xx'' ''X'' 1),
        swap_of (leg_of ''0xa'' ''USDC'' 2) (leg_of ''0xx'' ''X'' 1)] (Fin 3000) 0 = Inr (st', evs', snk')"
    by blast
  have "Sym ''USDC'' \<in> set stack0" by (simp add: stack0_def)
  with priced_symbols_order_independent [OF m r r']
  have "dom (usd st) = dom (usd st') \<and> usd st (Sym ''USDC'') = usd st' (Sym ''USDC'')" by blast
  with m r r' show ?thesis by blast
qed

section \<open>Oracle fallback\<close>

lemma foo_bar_graph:
  "build_graph [] [swap_of (leg_of ''0xf'' ''FOO'' 1) (leg_of ''0xb'' ''BAR'' 4)] =
     Inr [(Sym ''FOO'', [Edge (Sym ''BAR'') (Fin (1 / 4))]),
          (Sym ''BAR'', [Edge (Sym ''FOO'') (Fin 4)])]"
  by (simp add: swap_of_def leg_of_def truthy_def call_dividedBy_def addEdge_def)

lemma foo_bar_anchors:
  "traverse [(Sym ''FOO'', [Edge (Sym ''BAR'') (Fin (1 / 4))]),
             (Sym ''BAR'', [Edge (Sym ''FOO'') (Fin 4)])] stack0 p = Inr p"
  by (rule traverse_no_keys) (simp add: stack0_def)

lemma foo_bar_priced:
  "price_batch m [swap_of (leg_of ''0xf'' ''FOO'' 1) (leg_of ''0xb'' ''BAR'' 4)] E =
     Inr (\<lparr>usd = (seed E)(Sym ''FOO'' \<mapsto> getEthereumTokenUSD m (Some ''0xf''),
                        Sym ''BAR'' \<mapsto> times (getEthereumTokenUSD m (Some ''0xf'')) (Fin (1 / 4))),
           asked = [Some ''0xf'']\<rparr>,
          [swap_of
             ((leg_of ''0xf'' ''FOO'' 1)
               \<lparr>value_in_usd := Some (getEthereumTokenUSD m (Some ''0xf'')),
                 total_exchanged_usd := Some (times (getEthereumTokenUSD m (Some ''0xf'')) (Fin 1))\<rparr>)
             ((leg_of ''0xb'' ''BAR'' 4)
               \<lparr>value_in_usd := Some (times (getEthereumTokenUSD m (Some ''0xf'')) (Fin (1 / 4))),
                 total_exchanged_usd :=
                   Some (times (times (getEthereumTokenUSD m (Some ''0xf'')) (Fin (1 / 4))) (Fin 4))\<rparr>)])"
  apply (simp only: price_batch_def foo_bar_graph foo_bar_anchors sum.case)
  apply (simp add: price_event_def assign_usd_def loose_eq_def traverse.simps call_times_def
        seed_apply stack0_def swap_of_def leg_of_def del: times.simps)
  done

text \<open>
  C3 does not hold of the code. With an oracle whose request fails, so that
  getEthereumTokenUSD answers zero, and the single swap of FOO against BAR, neither
  reachable from an anchor: fillUSDAmounts returns, FOO is in the price map at 0, BAR is
  priced from it at 0, and both legs carry USD fields equal to 0. The comparison of line
  394 is between two distinct objects and never holds.
\<close>

theorem zero_oracle_answer_is_seeded:
  "getEthereumTokenUSD (\<lambda>i. Inl Rejected) (Some ''0xf'') = Fin 0 \<and>
   (\<exists>st evs snk.
      fillUSDAmounts (services_of (\<lambda>i. Inl Rejected))
        [swap_of (leg_of ''0xf'' ''FOO'' 1) (leg_of ''0xb'' ''BAR'' 4)] (Fin 3000) 0 = Inr (st, evs, snk) \<and>
      asked st = [Some ''0xf''] \<and>
      usd st (Sym ''FOO'') = Some (Fin 0) \<and> usd st (Sym ''BAR'') = Some (Fin 0) \<and>
      value_in_usd (token0 (hd evs)) = Some (Fin 0) \<and>
      total_exchanged_usd (token0 (hd evs)) = Some (Fin 0) \<and>
      value_in_usd (token1 (hd evs)) = Some (Fin 0) \<and>
      total_exchanged_usd (token1 (hd evs)) = Some (Fin 0))"
proof -
  have z: "getEthereumTokenUSD (\<lambda>i. Inl Rejected) (Some ''0xf'') = Fin 0"
    by (simp add: getEthereumTokenUSD_def)
  have m: "Moralis_getTokenPrice (services_of (\<lambda>i. Inl Rejected)) = (\<lambda>i. Inl Rejected)"
    and ts: "block_timestamp (services_of (\<lambda>i. Inl Rejected))
       (blockNumber (hd [swap_of (leg_of ''0xf'' ''FOO'' 1) (leg_of ''0xb'' ''BAR'' 4)]))
       = Inr ''2024-01-01T00:00:00.000Z''"
    by (simp_all add: services_of_def block_timestamp_def client_query_def)
  note p = foo_bar_priced [of "Moralis_getTokenPrice (services_of (\<lambda>i. Inl Rejected))" "Fin 3000"]
  from fillUSDAmounts_of_price_batch [OF p _ ts, of 0] z show ?thesis
    by (simp add: m swap_of_def)
qed

lemma swap_edges_sym: "(a, b) \<in> swap_edges ses \<Longrightarrow> (b, a) \<in> swap_edges ses"
  by (auto simp: swap_edges_def split: if_splits)

lemma swap_edges_reach_sym: "(a, b) \<in> (swap_edges ses)\<^sup>* \<Longrightarrow> (b, a) \<in> (swap_edges ses)\<^sup>*"
proof (induction rule: rtrancl_induct)
  case base
  show ?case by simp
next
  case (step y z)
  from step.hyps(2) have "(z, y) \<in> swap_edges ses" by (rule swap_edges_sym)
  then show ?case using step.IH by (rule converse_rtrancl_into_rtrancl)
qed

text \<open>
  Where the prices of the loop come from, and what the oracle is asked: a price in the
  map after the loop was there before it, or is the answer of the oracle for the first
  leg of a swap whose symbol had no price, multiplied along a path from that symbol; the
  ids passed to the oracle are those of first legs whose symbols had no price.
\<close>

lemma price_event_origin:
  assumes run: "price_event g m st se = Inr (st', se')" and w: "usd st' U = Some w"
  shows "usd st U = Some w \<or>
         usd st (lsymbol (token0 se)) = None \<and>
         path g (lsymbol (token0 se)) (getEthereumTokenUSD m (id' (token0 se))) U w"
  using run
proof (cases rule: price_event_cases)
  case priced
  with w show ?thesis by simp
next
  case (fallback P)
  let ?T = "lsymbol (token0 se)"
  let ?v = "getEthereumTokenUSD m (id' (token0 se))"
  let ?p = "(usd st)(?T \<mapsto> ?v)"
  from fallback(3) w have P: "P U = Some w" by simp
  show ?thesis
  proof (cases "?p U")
    case None
    have "set [?T] \<subseteq> dom ?p" by simp
    from traverse_path [OF fallback(2) this None P] have "path g ?T ?v U w" by auto
    with fallback(1) show ?thesis by simp
  next
    case (Some w')
    from map_le_Some [OF traverse_mono [OF fallback(2)] Some] P have e: "w' = w" by simp
    show ?thesis
    proof (cases "U = ?T")
      case True
      with Some e have "?v = w" by simp
      with True fallback(1) show ?thesis by (auto intro: path_start)
    next
      case False
      with Some e show ?thesis by simp
    qed
  qed
qed

lemma price_loop_origin:
  "price_loop g m st ses = Inr (st', evs) \<Longrightarrow> usd st' U = Some w \<Longrightarrow>
     usd st U = Some w \<or>
     (\<exists>se \<in> set ses. usd st (lsymbol (token0 se)) = None \<and>
        path g (lsymbol (token0 se)) (getEthereumTokenUSD m (id' (token0 se))) U w)"
proof (induction ses arbitrary: st evs)
  case Nil
  then show ?case by simp
next
  case (Cons x ses)
  from Cons.prems(1) obtain sx x' evs' where
    x: "price_event g m st x = Inr (sx, x')" and
    rest: "price_loop g m sx ses = Inr (st', evs')"
    by (auto split: sum.splits)
  from price_event_mono [OF x] have mono: "usd st \<subseteq>\<^sub>m usd sx" .
  from Cons.IH [OF rest Cons.prems(2)] show ?case
  proof
    assume "usd sx U = Some w"
    from price_event_origin [OF x this] show ?thesis by auto
  next
    assume "\<exists>se \<in> set ses. usd sx (lsymbol (token0 se)) = None \<and>
        path g (lsymbol (token0 se)) (getEthereumTokenUSD m (id' (token0 se))) U w"
    then obtain se where se: "se \<in> set ses" "usd sx (lsymbol (token0 se)) = None"
      "path g (lsymbol (token0 se)) (getEthereumTokenUSD m (id' (token0 se))) U w" by blast
    have "usd st (lsymbol (token0 se)) = None"
    proof (cases "usd st (lsymbol (token0 se))")
      case None
      then show ?thesis .
    next
      case (Some a)
      from map_le_Some [OF mono Some] se(2) show ?thesis by simp
    qed
    with se show ?thesis by auto
  qed
qed

lemma price_loop_asked:
  "price_loop g m st ses = Inr (st', evs) \<Longrightarrow>
     \<exists>ses'. asked st' = asked st @ map (\<lambda>se. id' (token0 se)) ses' \<and>
            set ses' \<subseteq> {se \<in> set ses. usd st (lsymbol (token0 se)) = None}"
proof (induction ses arbitrary: st evs)
  case Nil
  then show ?case by simp
next
  case (Cons x ses)
  from Cons.prems(1) obtain sx x' evs' where
    x: "price_event g m st x = Inr (sx, x')" and
    rest: "price_loop g m sx ses = Inr (st', evs')"
    by (auto split: sum.splits)
  from price_event_mono [OF x] have mono: "usd st \<subseteq>\<^sub>m usd sx" .
  from Cons.IH [OF rest] obtain ses' where
    a: "asked st' = asked sx @ map (\<lambda>se. id' (token0 se)) ses'"
    and sub: "set ses' \<subseteq> {se \<in> set ses. usd sx (lsymbol (token0 se)) = None}" by blast
  have sub': "set ses' \<subseteq> {se \<in> set ses. usd st (lsymbol (token0 se)) = None}"
  proof
    fix se assume "se \<in> set ses'"
    with sub have se: "se \<in> set ses" "usd sx (lsymbol (token0 se)) = None" by auto
    have "usd st (lsymbol (token0 se)) = None"
    proof (cases "usd st (lsymbol (token0 se))")
      case None
      then show ?thesis .
    next
      case (Some a)
      from map_le_Some [OF mono Some] se(2) show ?thesis by simp
    qed
    with se(1) show "se \<in> {se \<in> set ses. usd st (lsymbol (token0 se)) = None}" by simp
  qed
  show ?case
  proof (cases "usd st (lsymbol (token0 x)) = None")
    case True
    with price_event_asked [OF x] a have
      "asked st' = asked st @ map (\<lambda>se. id' (token0 se)) (x # ses')" by simp
    moreover from True sub' have
      "set (x # ses') \<subseteq> {se \<in> set (x # ses). usd st (lsymbol (token0 se)) = None}" by auto
    ultimately show ?thesis by blast
  next
    case False
    with price_event_asked [OF x] a have
      "asked st' = asked st @ map (\<lambda>se. id' (token0 se)) ses'" by simp
    moreover from sub' have
      "set ses' \<subseteq> {se \<in> set (x # ses). usd st (lsymbol (token0 se)) = None}" by auto
    ultimately show ?thesis by blast
  qed
qed

text \<open>
  C6, amended. Take a swap of the batch whose first-leg symbol \<open>T\<close> has no price when
  the loop reaches it, and for which the oracle answers a price \<open>v\<close> other than zero.
  Then in the final price map \<open>T\<close> has the price \<open>v\<close>, and every symbol \<open>U\<close> connected
  to \<open>T\<close> by edges of the batch had no price before and has one in the final map, equal
  to \<open>v\<close> multiplied along a path of edges from \<open>T\<close> to \<open>U\<close>. The oracle is asked
  for the id of that first leg, and altogether only for first legs of swaps whose
  symbols the anchor traversal left without a price. Every price of the final map is
  the one the anchor traversal gave, or the answer of the oracle for such a first leg
  multiplied along a path of edges from it: a token that is no such first leg is never
  looked up and gets no price of its own.
\<close>

theorem oracle_price_reseeds:
  assumes g: "build_graph [] (pre @ se # post) = Inr g"
    and p0: "traverse g stack0 (seed ETH2USD) = Inr p0"
    and before: "price_loop g (Moralis_getTokenPrice srv) \<lparr>usd = p0, asked = []\<rparr> pre = Inr (st1, pre')"
    and unpriced: "usd st1 (lsymbol (token0 se)) = None"
    and answer: "getEthereumTokenUSD (Moralis_getTokenPrice srv) (id' (token0 se)) = v" "v \<noteq> Fin 0"
    and run: "fillUSDAmounts srv (pre @ se # post) ETH2USD db = Inr (st, evs, snk)"
  shows "usd st (lsymbol (token0 se)) = Some v \<and>
         (\<forall>U. (lsymbol (token0 se), U) \<in> (edges g)\<^sup>* \<longrightarrow>
              usd st1 U = None \<and> (\<exists>w. usd st U = Some w \<and> path g (lsymbol (token0 se)) v U w)) \<and>
         (\<exists>ses'. asked st = map (\<lambda>se'. id' (token0 se')) ses' \<and> se \<in> set ses' \<and>
            set ses' \<subseteq> {se' \<in> set (pre @ se # post). p0 (lsymbol (token0 se')) = None}) \<and>
         (\<forall>U w. usd st U = Some w \<longrightarrow>
            p0 U = Some w \<or>
            (\<exists>se' \<in> set (pre @ se # post). p0 (lsymbol (token0 se')) = None \<and>
               path g (lsymbol (token0 se'))
                 (getEthereumTokenUSD (Moralis_getTokenPrice srv) (id' (token0 se'))) U w))"
proof -
  let ?m = "Moralis_getTokenPrice srv"
  let ?T = "lsymbol (token0 se)"
  from fillUSDAmounts_priced [OF run] have "price_batch ?m (pre @ se # post) ETH2USD = Inr (st, evs)"
    by simp
  with g p0 have loop: "price_loop g ?m \<lparr>usd = p0, asked = []\<rparr> (pre @ se # post) = Inr (st, evs)"
    by (simp add: price_batch_def)
  from price_loop_split [OF loop] before obtain st2 se' post' where
    ev: "price_event g ?m st1 se = Inr (st2, se')"
    and after: "price_loop g ?m st2 post = Inr (st, post')" by auto
  from edges_build_graph [OF g] have e: "edges g = swap_edges (pre @ se # post)"
    by (simp add: edges_Nil)
  have c1: "edges g `` dom (usd st1) \<subseteq> dom (usd st1)"
    using price_loop_closed [OF before] anchors_closed(1) [OF p0] by simp
  from ev obtain P where
    tr: "traverse g [?T] ((usd st1)(?T \<mapsto> v)) = Inr P" and st2: "usd st2 = P"
    using unpriced answer(1) by (cases rule: price_event_cases) auto
  from price_event_closed [OF ev c1] st2 have cP: "edges g `` dom P \<subseteq> dom P" by simp
  from traverse_mono [OF tr] have T: "P ?T = Some v" by (force simp: map_le_def dom_def)
  from price_loop_mono [OF after] st2 have fin: "P \<subseteq>\<^sub>m usd st" by simp
  from T fin have seeded: "usd st ?T = Some v" by (force simp: map_le_def dom_def)
  have reach: "usd st1 U = None \<and> (\<exists>w. usd st U = Some w \<and> path g ?T v U w)"
    if r: "(?T, U) \<in> (edges g)\<^sup>*" for U
  proof -
    have n: "usd st1 U = None"
    proof (rule ccontr)
      assume "usd st1 U \<noteq> None"
      then have "U \<in> dom (usd st1)" by blast
      moreover from r have "(U, ?T) \<in> (edges g)\<^sup>*" unfolding e by (rule swap_edges_reach_sym)
      ultimately have "?T \<in> (edges g)\<^sup>* `` dom (usd st1)" by blast
      with closed_reach [OF c1] unpriced show False by blast
    qed
    from T have "?T \<in> dom P" by blast
    with r have "U \<in> (edges g)\<^sup>* `` dom P" by blast
    with closed_reach [OF cP] obtain w where w: "P U = Some w" by blast
    have "path g ?T v U w"
    proof (cases "U = ?T")
      case True
      with w T show ?thesis by (simp add: path_start)
    next
      case False
      with n have "((usd st1)(?T \<mapsto> v)) U = None" by simp
      have "set [?T] \<subseteq> dom ((usd st1)(?T \<mapsto> v))" by simp
      from traverse_path [OF tr this \<open>((usd st1)(?T \<mapsto> v)) U = None\<close> w]
      show ?thesis by auto
    qed
    moreover from w fin have "usd st U = Some w" by (force simp: map_le_def dom_def)
    ultimately show ?thesis using n by blast
  qed
  have asked: "\<exists>ses'. asked st = map (\<lambda>se'. id' (token0 se')) ses' \<and> se \<in> set ses' \<and>
            set ses' \<subseteq> {se' \<in> set (pre @ se # post). p0 (lsymbol (token0 se')) = None}"
  proof -
    from price_loop_asked [OF before] obtain a1 where
      a1: "asked st1 = map (\<lambda>se'. id' (token0 se')) a1"
        "set a1 \<subseteq> {se' \<in> set pre. p0 (lsymbol (token0 se')) = None}" by auto
    from price_event_asked [OF ev] unpriced have a2: "asked st2 = asked st1 @ [id' (token0 se)]"
      by simp
    from price_loop_asked [OF after] obtain a3 where
      a3: "asked st = asked st2 @ map (\<lambda>se'. id' (token0 se')) a3"
        "set a3 \<subseteq> {se' \<in> set post. usd st2 (lsymbol (token0 se')) = None}" by blast
    from price_loop_mono [OF before] have m1: "p0 \<subseteq>\<^sub>m usd st1" by simp
    from price_event_mono [OF ev] have m2: "usd st1 \<subseteq>\<^sub>m usd st2" .
    from m1 m2 have m: "p0 \<subseteq>\<^sub>m usd st2" by (rule map_le_trans)
    have none: "p0 k = None" if "usd st2 k = None" for k
    proof (cases "p0 k")
      case None
      then show ?thesis .
    next
      case (Some a)
      from map_le_Some [OF m Some] that show ?thesis by simp
    qed
    have none1: "p0 k = None" if "usd st1 k = None" for k
    proof (cases "p0 k")
      case None
      then show ?thesis .
    next
      case (Some a)
      from map_le_Some [OF m1 Some] that show ?thesis by simp
    qed
    let ?all = "a1 @ se # a3"
    from a1(1) a2 a3(1) have "asked st = map (\<lambda>se'. id' (token0 se')) ?all" by simp
    moreover have "se \<in> set ?all" by simp
    moreover have "set ?all \<subseteq> {se' \<in> set (pre @ se # post). p0 (lsymbol (token0 se')) = None}"
      using a1(2) a3(2) none none1 [OF unpriced] by auto
    ultimately show ?thesis by blast
  qed
  have origin: "p0 U = Some w \<or>
            (\<exists>se' \<in> set (pre @ se # post). p0 (lsymbol (token0 se')) = None \<and>
               path g (lsymbol (token0 se')) (getEthereumTokenUSD ?m (id' (token0 se'))) U w)"
    if "usd st U = Some w" for U w
    using price_loop_origin [OF loop that] by simp
  from seeded reach asked origin show ?thesis by blast
qed

lemma foo_bar_run:
  "fillUSDAmounts (services_of m)
     [swap_of (leg_of ''0xf'' ''FOO'' 1) (leg_of ''0xb'' ''BAR'' 4)] (Fin 3000) 0 =
   Inr (\<lparr>usd = (seed (Fin 3000))(Sym ''FOO'' \<mapsto> getEthereumTokenUSD m (Some ''0xf''),
                        Sym ''BAR'' \<mapsto> times (getEthereumTokenUSD m (Some ''0xf'')) (Fin (1 / 4))),
           asked = [Some ''0xf'']\<rparr>,
        [swap_of
             ((leg_of ''0xf'' ''FOO'' 1)
               \<lparr>value_in_usd := Some (getEthereumTokenUSD m (Some ''0xf'')),
                 total_exchanged_usd := Some (times (getEthereumTokenUSD m (Some ''0xf'')) (Fin 1))\<rparr>)
             ((leg_of ''0xb'' ''BAR'' 4)
               \<lparr>value_in_usd := Some (times (getEthereumTokenUSD m (Some ''0xf'')) (Fin (1 / 4))),
                 total_exchanged_usd :=
                   Some (times (times (getEthereumTokenUSD m (Some ''0xf'')) (Fin (1 / 4))) (Fin 4))\<rparr>)],
        persist (services_of m) (Some (Fin 3000)) ''2024-01-01T00:00:00.000Z''
          [swap_of
             ((leg_of ''0xf'' ''FOO'' 1)
               \<lparr>value_in_usd := Some (getEthereumTokenUSD m (Some ''0xf'')),
                 total_exchanged_usd := Some (times (getEthereumTokenUSD m (Some ''0xf'')) (Fin 1))\<rparr>)
             ((leg_of ''0xb'' ''BAR'' 4)
               \<lparr>value_in_usd := Some (times (getEthereumTokenUSD m (Some ''0xf'')) (Fin (1 / 4))),
                 total_exchanged_usd :=
                   Some (times (times (getEthereumTokenUSD m (Some ''0xf'')) (Fin (1 / 4))) (Fin 4))\<rparr>)]
          \<lparr>store = 0, attempted = [], logged = []\<rparr>)"
proof -
  have m: "Moralis_getTokenPrice (services_of m) = m"
    and ts: "block_timestamp (services_of m)
       (blockNumber (hd [swap_of (leg_of ''0xf'' ''FOO'' 1) (leg_of ''0xb'' ''BAR'' 4)]))
       = Inr ''2024-01-01T00:00:00.000Z''"
    by (simp_all add: services_of_def block_timestamp_def client_query_def)
  note p = foo_bar_priced [of "Moralis_getTokenPrice (services_of m)" "Fin 3000"]
  from fillUSDAmounts_of_price_batch [OF p _ ts, of 0] show ?thesis
    unfolding m by simp
qed

lemma foo_bar_unreachable:
  "Sym ''FOO'' \<notin> (edges [(Sym ''FOO'', [Edge (Sym ''BAR'') (Fin (1 / 4))]),
             (Sym ''BAR'', [Edge (Sym ''FOO'') (Fin 4)])])\<^sup>* `` set stack0"
  "Sym ''BAR'' \<notin> (edges [(Sym ''FOO'', [Edge (Sym ''BAR'') (Fin (1 / 4))]),
             (Sym ''BAR'', [Edge (Sym ''FOO'') (Fin 4)])])\<^sup>* `` set stack0"
proof -
  let ?g = "[(Sym ''FOO'', [Edge (Sym ''BAR'') (Fin (1 / 4))]),
             (Sym ''BAR'', [Edge (Sym ''FOO'') (Fin 4)])]"
  from anchors_closed(2) [OF foo_bar_anchors [of "seed (Fin 3000)"]]
  have "(edges ?g)\<^sup>* `` set stack0 = set stack0" by (simp add: dom_seed)
  then show "Sym ''FOO'' \<notin> (edges ?g)\<^sup>* `` set stack0"
    and "Sym ''BAR'' \<notin> (edges ?g)\<^sup>* `` set stack0"
    by (simp_all add: stack0_def)
qed

text \<open>
  C6, as stated, fails for a token that is not the first leg of the swap that brings it
  in: in the single swap of FOO against BAR, BAR is unreachable from the anchors and the
  oracle would answer 7 for it, but the oracle is asked for FOO only and BAR is priced
  at 5/4 from the answer 5 for FOO, not seeded with 7.
\<close>

theorem oracle_not_asked_for_second_leg:
  "build_graph [] [swap_of (leg_of ''0xf'' ''FOO'' 1) (leg_of ''0xb'' ''BAR'' 4)] =
     Inr [(Sym ''FOO'', [Edge (Sym ''BAR'') (Fin (1 / 4))]),
          (Sym ''BAR'', [Edge (Sym ''FOO'') (Fin 4)])] \<and>
   Sym ''BAR'' \<notin> (edges [(Sym ''FOO'', [Edge (Sym ''BAR'') (Fin (1 / 4))]),
             (Sym ''BAR'', [Edge (Sym ''FOO'') (Fin 4)])])\<^sup>* `` set stack0 \<and>
   getEthereumTokenUSD oracle_5_7 (Some ''0xb'') = Fin 7 \<and>
   (\<exists>st evs snk.
      fillUSDAmounts (services_of oracle_5_7)
        [swap_of (leg_of ''0xf'' ''FOO'' 1) (leg_of ''0xb'' ''BAR'' 4)] (Fin 3000) 0 = Inr (st, evs, snk) \<and>
      asked st = [Some ''0xf''] \<and>
      usd st (Sym ''BAR'') = Some (Fin (5 / 4)) \<and> usd st (Sym ''BAR'') \<noteq> Some (Fin 7))"
proof -
  have a: "getEthereumTokenUSD oracle_5_7 (Some ''0xf'') = Fin 5"
    "getEthereumTokenUSD oracle_5_7 (Some ''0xb'') = Fin 7"
    by (simp_all add: getEthereumTokenUSD_def oracle_5_7_def)
  from foo_bar_run [of oracle_5_7] a foo_bar_graph foo_bar_unreachable(2) show ?thesis
    by simp
qed

theorem oracle_price_reseeds_witness:
  "build_graph [] ([] @ swap_of (leg_of ''0xf'' ''FOO'' 1) (leg_of ''0xb'' ''BAR'' 4) # []) =
     Inr [(Sym ''FOO'', [Edge (Sym ''BAR'') (Fin (1 / 4))]),
          (Sym ''BAR'', [Edge (Sym ''FOO'') (Fin 4)])] \<and>
   traverse [(Sym ''FOO'', [Edge (Sym ''BAR'') (Fin (1 / 4))]),
             (Sym ''BAR'', [Edge (Sym ''FOO'') (Fin 4)])] stack0 (seed (Fin 3000)) =
     Inr (seed (Fin 3000)) \<and>
   seed (Fin 3000) (Sym ''FOO'') = None \<and>
   getEthereumTokenUSD oracle_5_7 (Some ''0xf'') = Fin 5 \<and>
   (\<exists>st evs snk.
      fillUSDAmounts (services_of oracle_5_7)
        ([] @ swap_of (leg_of ''0xf'' ''FOO'' 1) (leg_of ''0xb'' ''BAR'' 4) # []) (Fin 3000) 0 =
        Inr (st, evs, snk) \<and>
      usd st (Sym ''FOO'') = Some (Fin 5) \<and>
      (Sym ''FOO'', Sym ''BAR'') \<in>
         (edges [(Sym ''FOO'', [Edge (Sym ''BAR'') (Fin (1 / 4))]),
                 (Sym ''BAR'', [Edge (Sym ''FOO'') (Fin 4)])])\<^sup>* \<and>
      (\<exists>w. usd st (Sym ''BAR'') = Some w \<and>
           path [(Sym ''FOO'', [Edge (Sym ''BAR'') (Fin (1 / 4))]),
                 (Sym ''BAR'', [Edge (Sym ''FOO'') (Fin 4)])] (Sym ''FOO'') (Fin 5) (Sym ''BAR'') w) \<and>
      (\<exists>ses'. asked st = map (\<lambda>se'. id' (token0 se')) ses' \<and>
         set ses' \<subseteq> {swap_of (leg_of ''0xf'' ''FOO'' 1) (leg_of ''0xb'' ''BAR'' 4)}) \<and>
      asked st = [Some ''0xf''])"
proof -
  let ?g = "[(Sym ''FOO'', [Edge (Sym ''BAR'') (Fin (1 / 4))]),
             (Sym ''BAR'', [Edge (Sym ''FOO'') (Fin 4)])]"
  let ?se = "swap_of (leg_of ''0xf'' ''FOO'' 1) (leg_of ''0xb'' ''BAR'' 4)"
  let ?srv = "services_of oracle_5_7"
  have m: "Moralis_getTokenPrice ?srv = oracle_5_7" by (simp add: services_of_def)
  have g: "build_graph [] ([] @ ?se # []) = Inr ?g" using foo_bar_graph by simp
  have p0: "traverse ?g stack0 (seed (Fin 3000)) = Inr (seed (Fin 3000))" by (rule foo_bar_anchors)
  have before: "price_loop ?g (Moralis_getTokenPrice ?srv) \<lparr>usd = seed (Fin 3000), asked = []\<rparr> []
      = Inr (\<lparr>usd = seed (Fin 3000), asked = []\<rparr>, [])" by simp
  have un: "usd \<lparr>usd = seed (Fin 3000), asked = []\<rparr> (lsymbol (token0 ?se)) = None"
    by (simp add: swap_of_def leg_of_def seed_apply stack0_def)
  have a: "getEthereumTokenUSD (Moralis_getTokenPrice ?srv) (id' (token0 ?se)) = Fin 5" "Fin 5 \<noteq> Fin 0"
    by (simp_all add: m getEthereumTokenUSD_def oracle_5_7_def swap_of_def leg_of_def)
  from foo_bar_run [of oracle_5_7] obtain st evs snk where
    run: "fillUSDAmounts ?srv ([] @ ?se # []) (Fin 3000) 0 = Inr (st, evs, snk)"
    and ask: "asked st = [Some ''0xf'']" by simp
  have r: "(Sym ''FOO'', Sym ''BAR'') \<in> (edges ?g)\<^sup>*"
    by (rule r_into_rtrancl) (simp add: edges_def)
  have T: "lsymbol (token0 ?se) = Sym ''FOO''" by (simp add: swap_of_def leg_of_def)
  note th = oracle_price_reseeds [OF g p0 before un a run]
  from th r have "usd st (Sym ''FOO'') = Some (Fin 5) \<and>
      (\<exists>w. usd st (Sym ''BAR'') = Some w \<and> path ?g (Sym ''FOO'') (Fin 5) (Sym ''BAR'') w)"
    unfolding T by blast
  moreover from th have "\<exists>ses'. asked st = map (\<lambda>se'. id' (token0 se')) ses' \<and> set ses' \<subseteq> {?se}"
    by auto
  ultimately have "\<exists>st evs snk.
      fillUSDAmounts ?srv ([] @ ?se # []) (Fin 3000) 0 = Inr (st, evs, snk) \<and>
      usd st (Sym ''FOO'') = Some (Fin 5) \<and>
      (Sym ''FOO'', Sym ''BAR'') \<in> (edges ?g)\<^sup>* \<and>
      (\<exists>w. usd st (Sym ''BAR'') = Some w \<and> path ?g (Sym ''FOO'') (Fin 5) (Sym ''BAR'') w) \<and>
      (\<exists>ses'. asked st = map (\<lambda>se'. id' (token0 se')) ses' \<and> set ses' \<subseteq> {?se}) \<and>
      asked st = [Some ''0xf'']"
    using run r ask by blast
  moreover have "seed (Fin 3000) (Sym ''FOO'') = None" by (simp add: seed_apply stack0_def)
  moreover have "getEthereumTokenUSD oracle_5_7 (Some ''0xf'') = Fin 5"
    by (simp add: getEthereumTokenUSD_def oracle_5_7_def)
  ultimately show ?thesis using g p0 by blast
qed

text \<open>
  A second leg that no edge reaches: in the single swap of FOO against a token with the
  empty symbol, the oracle would answer 7 for the second token, but it is asked for FOO
  only, and the empty symbol has no price in the final map.
\<close>

lemma second_leg_without_edge:
  "getEthereumTokenUSD oracle_5_7 (Some ''0xb'') = Fin 7 \<and>
   price_batch oracle_5_7 [swap_of (leg_of ''0xf'' ''FOO'' 1) (leg_of ''0xb'' [] 4)] (Fin 3000) =
     Inr (\<lparr>usd = (seed (Fin 3000))(Sym ''FOO'' \<mapsto> Fin 5), asked = [Some ''0xf'']\<rparr>,
          [swap_of ((leg_of ''0xf'' ''FOO'' 1)
                      \<lparr>value_in_usd := Some (Fin 5), total_exchanged_usd := Some (Fin 5)\<rparr>)
                   (leg_of ''0xb'' [] 4)]) \<and>
   ((seed (Fin 3000))(Sym ''FOO'' \<mapsto> Fin 5)) (Sym []) = None"
proof -
  have g: "build_graph [] [swap_of (leg_of ''0xf'' ''FOO'' 1) (leg_of ''0xb'' [] 4)] = Inr []"
    by (simp add: swap_of_def leg_of_def truthy_def)
  have tr: "traverse [] stack0 p = Inr p" for p
    by (rule traverse_no_keys) simp
  have "price_batch oracle_5_7 [swap_of (leg_of ''0xf'' ''FOO'' 1) (leg_of ''0xb'' [] 4)] (Fin 3000) =
     Inr (\<lparr>usd = (seed (Fin 3000))(Sym ''FOO'' \<mapsto> Fin 5), asked = [Some ''0xf'']\<rparr>,
          [swap_of ((leg_of ''0xf'' ''FOO'' 1)
                      \<lparr>value_in_usd := Some (Fin 5), total_exchanged_usd := Some (Fin 5)\<rparr>)
                   (leg_of ''0xb'' [] 4)])"
    apply (simp only: price_batch_def g tr sum.case)
    apply (simp add: price_event_def assign_usd_def loose_eq_def traverse.simps call_times_def
        seed_apply stack0_def swap_of_def leg_of_def getEthereumTokenUSD_def oracle_5_7_def)
    done
  then show ?thesis
    by (simp add: getEthereumTokenUSD_def oracle_5_7_def seed_apply stack0_def)
qed

text \<open>
  Two first legs without a symbol, one \<^verbatim>\<open>null\<close> and one \<^verbatim>\<open>undefined\<close>: the price
  map keeps them apart, so the oracle is asked for both.
\<close>

lemma null_and_undefined_symbols:
  "\<exists>evs. price_batch oracle_5_7
       [swap_of ((leg_of ''0xf'' [] 1)\<lparr>lsymbol := Null_symbol\<rparr>) (leg_of ''0xa'' ''USDC'' 1),
        swap_of ((leg_of ''0xb'' [] 1)\<lparr>lsymbol := Undefined_symbol\<rparr>) (leg_of ''0xa'' ''USDC'' 1)]
       (Fin 3000) =
     Inr (\<lparr>usd = (seed (Fin 3000))(Null_symbol \<mapsto> Fin 5, Undefined_symbol \<mapsto> Fin 7),
            asked = [Some ''0xf'', Some ''0xb'']\<rparr>, evs)"
proof -
  have g: "build_graph []
       [swap_of ((leg_of ''0xf'' [] 1)\<lparr>lsymbol := Null_symbol\<rparr>) (leg_of ''0xa'' ''USDC'' 1),
        swap_of ((leg_of ''0xb'' [] 1)\<lparr>lsymbol := Undefined_symbol\<rparr>) (leg_of ''0xa'' ''USDC'' 1)]
      = Inr []"
    by (simp add: swap_of_def leg_of_def truthy_def)
  have tr: "traverse [] stack0 p = Inr p" for p
    by (rule traverse_no_keys) simp
  show ?thesis
    apply (simp only: price_batch_def g tr sum.case)
    apply (simp add: price_event_def assign_usd_def loose_eq_def traverse.simps call_times_def
        seed_apply stack0_def swap_of_def leg_of_def getEthereumTokenUSD_def oracle_5_7_def)
    done
qed

section \<open>USD fields of the legs\<close>

text \<open>
  C7, amended. Take a swap of the batch that enters fillUSDAmounts without USD fields,
  and let \<open>st2\<close> be the state of the loop when the iteration for that swap ends. After
  fillUSDAmounts returns, the two USD fields of the first leg are present exactly when
  its symbol has a price in \<open>st2\<close>; those of the second leg are present exactly when
  both symbols have a price in \<open>st2\<close>; a \<^verbatim>\<open>value_in_usd\<close> that is present is the price
  of the symbol in the final price map; and the oracle is asked during that iteration
  only if the first leg's symbol had no price when the iteration began, and then for the
  id of the first leg.
\<close>

theorem usd_fields_follow_price_map:
  assumes run: "fillUSDAmounts srv (pre @ se # post) ETH2USD db = Inr (st, evs, snk)"
    and fresh: "value_in_usd (token0 se) = None" "total_exchanged_usd (token0 se) = None"
      "value_in_usd (token1 se) = None" "total_exchanged_usd (token1 se) = None"
  shows "\<exists>g p0 st1 pre' st2 se' post'.
      build_graph [] (pre @ se # post) = Inr g \<and>
      traverse g stack0 (seed ETH2USD) = Inr p0 \<and>
      price_loop g (Moralis_getTokenPrice srv) \<lparr>usd = p0, asked = []\<rparr> pre = Inr (st1, pre') \<and>
      price_event g (Moralis_getTokenPrice srv) st1 se = Inr (st2, se') \<and>
      price_loop g (Moralis_getTokenPrice srv) st2 post = Inr (st, post') \<and>
      evs = pre' @ se' # post' \<and> length pre' = length pre \<and>
      (value_in_usd (token0 se') \<noteq> None \<longleftrightarrow> usd st2 (lsymbol (token0 se)) \<noteq> None) \<and>
      (total_exchanged_usd (token0 se') \<noteq> None \<longleftrightarrow> usd st2 (lsymbol (token0 se)) \<noteq> None) \<and>
      (value_in_usd (token1 se') \<noteq> None \<longleftrightarrow>
         usd st2 (lsymbol (token0 se)) \<noteq> None \<and> usd st2 (lsymbol (token1 se)) \<noteq> None) \<and>
      (total_exchanged_usd (token1 se') \<noteq> None \<longleftrightarrow>
         usd st2 (lsymbol (token0 se)) \<noteq> None \<and> usd st2 (lsymbol (token1 se)) \<noteq> None) \<and>
      (\<forall>v. value_in_usd (token0 se') = Some v \<longrightarrow> usd st (lsymbol (token0 se)) = Some v) \<and>
      (\<forall>v. value_in_usd (token1 se') = Some v \<longrightarrow> usd st (lsymbol (token1 se)) = Some v) \<and>
      (asked st2 \<noteq> asked st1 \<longrightarrow>
         usd st1 (lsymbol (token0 se)) = None \<and> asked st2 = asked st1 @ [id' (token0 se)])"
proof -
  let ?m = "Moralis_getTokenPrice srv"
  from fillUSDAmounts_priced [OF run] have "price_batch ?m (pre @ se # post) ETH2USD = Inr (st, evs)"
    by simp
  then obtain g p0 where g: "build_graph [] (pre @ se # post) = Inr g"
    and p0: "traverse g stack0 (seed ETH2USD) = Inr p0"
    and loop: "price_loop g ?m \<lparr>usd = p0, asked = []\<rparr> (pre @ se # post) = Inr (st, evs)"
    by (rule price_batch_parts)
  from price_loop_split [OF loop] obtain st1 pre' st2 se' post' where
    before: "price_loop g ?m \<lparr>usd = p0, asked = []\<rparr> pre = Inr (st1, pre')"
    and ev: "price_event g ?m st1 se = Inr (st2, se')"
    and after: "price_loop g ?m st2 post = Inr (st, post')"
    and evs: "evs = pre' @ se' # post'" "length pre' = length pre" by blast
  note a = price_event_assign [OF ev]
  note l0 = assign_usd_leg0 [OF a] and l1 = assign_usd_leg1 [OF a]
  from price_loop_mono [OF after] have fin: "usd st2 \<subseteq>\<^sub>m usd st" .
  have v0: "value_in_usd (token0 se') = usd st2 (lsymbol (token0 se))"
    using l0(1) fresh(1) by (simp split: option.splits)
  have t0: "total_exchanged_usd (token0 se') \<noteq> None \<longleftrightarrow> usd st2 (lsymbol (token0 se)) \<noteq> None"
    using l0(2,3) fresh(2) by (auto split: option.splits)
  have v1: "value_in_usd (token1 se') =
      (if usd st2 (lsymbol (token0 se)) = None then None else usd st2 (lsymbol (token1 se)))"
    using l1(1) fresh(3) by (simp split: option.splits)
  have t1: "total_exchanged_usd (token1 se') \<noteq> None \<longleftrightarrow>
      usd st2 (lsymbol (token0 se)) \<noteq> None \<and> usd st2 (lsymbol (token1 se)) \<noteq> None"
  proof (cases "usd st2 (lsymbol (token0 se)) = None \<or> usd st2 (lsymbol (token1 se)) = None")
    case True
    with l1(2) fresh(4) show ?thesis by (auto split: option.splits)
  next
    case False
    with l1(3) have "amount (token1 se) \<noteq> None" by simp
    with False l1(2) show ?thesis by (auto split: option.splits)
  qed
  have f0: "\<forall>v. value_in_usd (token0 se') = Some v \<longrightarrow> usd st (lsymbol (token0 se)) = Some v"
    using v0 map_le_Some [OF fin] by simp
  have f1: "\<forall>v. value_in_usd (token1 se') = Some v \<longrightarrow> usd st (lsymbol (token1 se)) = Some v"
    using v1 map_le_Some [OF fin] by (simp split: if_splits)
  have k: "asked st2 \<noteq> asked st1 \<longrightarrow>
         usd st1 (lsymbol (token0 se)) = None \<and> asked st2 = asked st1 @ [id' (token0 se)]"
    using price_event_asked [OF ev] by (simp split: if_splits)
  from v0 have e0: "value_in_usd (token0 se') \<noteq> None \<longleftrightarrow> usd st2 (lsymbol (token0 se)) \<noteq> None"
    by simp
  from v1 have e1: "value_in_usd (token1 se') \<noteq> None \<longleftrightarrow>
      usd st2 (lsymbol (token0 se)) \<noteq> None \<and> usd st2 (lsymbol (token1 se)) \<noteq> None"
    by simp
  from g p0 before ev after evs e0 t0 e1 t1 f0 f1 k show ?thesis by blast
qed

lemma empty_symbol_priced:
  "price_batch oracle_5_7
     [swap_of (leg_of ''0xa'' ''USDC'' 1) (leg_of ''0xf'' [] 1),
      swap_of (leg_of ''0xf'' [] 1) (leg_of ''0xa'' ''USDC'' 1)] (Fin 3000) =
   Inr (\<lparr>usd = (seed (Fin 3000))(Sym [] \<mapsto> Fin 5), asked = [Some ''0xf'']\<rparr>,
        [swap_of ((leg_of ''0xa'' ''USDC'' 1)
                    \<lparr>value_in_usd := Some (Fin 1), total_exchanged_usd := Some (Fin 1)\<rparr>)
                 (leg_of ''0xf'' [] 1),
         swap_of ((leg_of ''0xf'' [] 1)
                    \<lparr>value_in_usd := Some (Fin 5), total_exchanged_usd := Some (Fin 5)\<rparr>)
                 ((leg_of ''0xa'' ''USDC'' 1)
                    \<lparr>value_in_usd := Some (Fin 1), total_exchanged_usd := Some (Fin 1)\<rparr>)])"
proof -
  have g: "build_graph [] [swap_of (leg_of ''0xa'' ''USDC'' 1) (leg_of ''0xf'' [] 1),
      swap_of (leg_of ''0xf'' [] 1) (leg_of ''0xa'' ''USDC'' 1)] = Inr []"
    by (simp add: swap_of_def leg_of_def truthy_def)
  have tr: "traverse [] stack0 p = Inr p" for p
    by (rule traverse_no_keys) simp
  show ?thesis
    apply (simp only: price_batch_def g tr sum.case)
    apply (simp add: price_event_def assign_usd_def loose_eq_def traverse.simps call_times_def
        seed_apply stack0_def swap_of_def leg_of_def getEthereumTokenUSD_def oracle_5_7_def)
    done
qed

lemma empty_symbol_run:
  "\<exists>snk. fillUSDAmounts (services_of oracle_5_7)
     ([] @ swap_of (leg_of ''0xa'' ''USDC'' 1) (leg_of ''0xf'' [] 1) #
      [swap_of (leg_of ''0xf'' [] 1) (leg_of ''0xa'' ''USDC'' 1)]) (Fin 3000) 0 =
   Inr (\<lparr>usd = (seed (Fin 3000))(Sym [] \<mapsto> Fin 5), asked = [Some ''0xf'']\<rparr>,
        [swap_of ((leg_of ''0xa'' ''USDC'' 1)
                    \<lparr>value_in_usd := Some (Fin 1), total_exchanged_usd := Some (Fin 1)\<rparr>)
                 (leg_of ''0xf'' [] 1),
         swap_of ((leg_of ''0xf'' [] 1)
                    \<lparr>value_in_usd := Some (Fin 5), total_exchanged_usd := Some (Fin 5)\<rparr>)
                 ((leg_of ''0xa'' ''USDC'' 1)
                    \<lparr>value_in_usd := Some (Fin 1), total_exchanged_usd := Some (Fin 1)\<rparr>)],
        snk)"
proof -
  have m: "Moralis_getTokenPrice (services_of oracle_5_7) = oracle_5_7"
    and ts: "block_timestamp (services_of oracle_5_7)
       (blockNumber (hd [swap_of (leg_of ''0xa'' ''USDC'' 1) (leg_of ''0xf'' [] 1),
      swap_of (leg_of ''0xf'' [] 1) (leg_of ''0xa'' ''USDC'' 1)]))
       = Inr ''2024-01-01T00:00:00.000Z''"
    by (simp_all add: services_of_def block_timestamp_def client_query_def)
  note p = empty_symbol_priced
  from fillUSDAmounts_of_price_batch [of "services_of oracle_5_7", unfolded m, OF p _ ts [unfolded m], of 0]
  show ?thesis by simp
qed

text \<open>
  C7, as stated, fails: a swap of USDC against a token whose symbol is the empty string,
  followed by a swap whose first leg is that token. The empty symbol contributes no edge,
  so the second leg of the first swap gets no USD fields; the fallback of the second
  swap then prices the empty symbol, which has a price in the final price map.
\<close>

theorem priced_second_leg_without_usd_fields:
  "\<exists>st evs snk.
     fillUSDAmounts (services_of oracle_5_7)
       [swap_of (leg_of ''0xa'' ''USDC'' 1) (leg_of ''0xf'' [] 1),
        swap_of (leg_of ''0xf'' [] 1) (leg_of ''0xa'' ''USDC'' 1)] (Fin 3000) 0 = Inr (st, evs, snk) \<and>
     lsymbol (token1 (evs ! 0)) = Sym [] \<and>
     usd st (Sym []) = Some (Fin 5) \<and>
     value_in_usd (token1 (evs ! 0)) = None \<and> total_exchanged_usd (token1 (evs ! 0)) = None"
proof -
  from empty_symbol_run obtain snk where
    "fillUSDAmounts (services_of oracle_5_7)
       [swap_of (leg_of ''0xa'' ''USDC'' 1) (leg_of ''0xf'' [] 1),
        swap_of (leg_of ''0xf'' [] 1) (leg_of ''0xa'' ''USDC'' 1)] (Fin 3000) 0 =
     Inr (\<lparr>usd = (seed (Fin 3000))(Sym [] \<mapsto> Fin 5), asked = [Some ''0xf'']\<rparr>,
        [swap_of ((leg_of ''0xa'' ''USDC'' 1)
                    \<lparr>value_in_usd := Some (Fin 1), total_exchanged_usd := Some (Fin 1)\<rparr>)
                 (leg_of ''0xf'' [] 1),
         swap_of ((leg_of ''0xf'' [] 1)
                    \<lparr>value_in_usd := Some (Fin 5), total_exchanged_usd := Some (Fin 5)\<rparr>)
                 ((leg_of ''0xa'' ''USDC'' 1)
                    \<lparr>value_in_usd := Some (Fin 1), total_exchanged_usd := Some (Fin 1)\<rparr>)],
        snk)" by auto
  then show ?thesis by (simp add: swap_of_def leg_of_def)
qed

theorem usd_fields_follow_price_map_witness:
  "value_in_usd (token0 (swap_of (leg_of ''0xa'' ''USDC'' 1) (leg_of ''0xf'' [] 1))) = None \<and>
   total_exchanged_usd (token0 (swap_of (leg_of ''0xa'' ''USDC'' 1) (leg_of ''0xf'' [] 1))) = None \<and>
   value_in_usd (token1 (swap_of (leg_of ''0xa'' ''USDC'' 1) (leg_of ''0xf'' [] 1))) = None \<and>
   total_exchanged_usd (token1 (swap_of (leg_of ''0xa'' ''USDC'' 1) (leg_of ''0xf'' [] 1))) = None \<and>
   (\<exists>st evs snk.
      fillUSDAmounts (services_of oracle_5_7)
        ([] @ swap_of (leg_of ''0xa'' ''USDC'' 1) (leg_of ''0xf'' [] 1) #
         [swap_of (leg_of ''0xf'' [] 1) (leg_of ''0xa'' ''USDC'' 1)]) (Fin 3000) 0 = Inr (st, evs, snk) \<and>
      value_in_usd (token0 (evs ! 0)) = Some (Fin 1) \<and>
      usd st (lsymbol (token0 (swap_of (leg_of ''0xa'' ''USDC'' 1) (leg_of ''0xf'' [] 1)))) = Some (Fin 1) \<and>
      value_in_usd (token1 (evs ! 0)) = None)"
proof -
  let ?se = "swap_of (leg_of ''0xa'' ''USDC'' 1) (leg_of ''0xf'' [] 1)"
  let ?post = "[swap_of (leg_of ''0xf'' [] 1) (leg_of ''0xa'' ''USDC'' 1)]"
  have fresh: "value_in_usd (token0 ?se) = None" "total_exchanged_usd (token0 ?se) = None"
    "value_in_usd (token1 ?se) = None" "total_exchanged_usd (token1 ?se) = None"
    by (simp_all add: swap_of_def leg_of_def)
  from empty_symbol_run obtain st evs snk where
    run: "fillUSDAmounts (services_of oracle_5_7) ([] @ ?se # ?post) (Fin 3000) 0 = Inr (st, evs, snk)"
    and evs: "value_in_usd (token0 (evs ! 0)) = Some (Fin 1)" "value_in_usd (token1 (evs ! 0)) = None"
    by (auto simp: swap_of_def leg_of_def)
  from usd_fields_follow_price_map [OF run fresh] obtain pre' se' post' where
    e: "evs = pre' @ se' # post'" "length pre' = length ([] :: swapEvent list)"
    and f: "\<forall>v. value_in_usd (token0 se') = Some v \<longrightarrow> usd st (lsymbol (token0 ?se)) = Some v"
    by blast
  from e have "evs ! 0 = se'" by simp
  with f evs(1) have "usd st (lsymbol (token0 ?se)) = Some (Fin 1)" by simp
  with run evs fresh show ?thesis by blast
qed

section \<open>The persistence loops\<close>

text \<open>
  The loop of lines 425 to 479 hands one parameter list per swap to \<^verbatim>\<open>client.query\<close>,
  in order, whatever the outcome of the earlier queries and whatever fields are absent;
  it is a total function of the model, so it raises nothing.
\<close>

lemma write_row_attempted:
  "attempted (write_row q stmt vals s) = attempted s @ [vals]"
  by (simp add: write_row_def split: prod.splits option.splits)

lemma persist_attempted:
  "attempted (persist srv ETH2USD ts events s) =
     attempted s @ map (row_values (Decimal_toString srv) ETH2USD ts) events"
  by (induction events arbitrary: s) (simp_all add: write_row_attempted)

lemma three_swaps_graph:
  "build_graph_first []
     [swap_of (leg_of ''0xa'' ''USDC'' 1) (leg_of ''0xx'' ''X'' 1),
      swap_of (leg_of ''0xf'' ''FOO'' 1) (leg_of ''0xb'' ''BAR'' 4),
      swap_of (leg_of ''0xa'' ''USDC'' 1) (leg_of ''0xy'' ''Y'' 1)] =
   Inr [(Sym ''USDC'', [Edge (Sym ''X'') (Fin 1), Edge (Sym ''Y'') (Fin 1)]),
        (Sym ''X'', [Edge (Sym ''USDC'') (Fin 1)]),
        (Sym ''FOO'', [Edge (Sym ''BAR'') (Fin (1 / 4))]),
        (Sym ''BAR'', [Edge (Sym ''FOO'') (Fin 4)]),
        (Sym ''Y'', [Edge (Sym ''USDC'') (Fin 1)])]"
  by (simp add: swap_of_def leg_of_def call_dividedBy_def addEdge_def)

lemma three_swaps_prices:
  "traverse [(Sym ''USDC'', [Edge (Sym ''X'') (Fin 1), Edge (Sym ''Y'') (Fin 1)]),
        (Sym ''X'', [Edge (Sym ''USDC'') (Fin 1)]),
        (Sym ''FOO'', [Edge (Sym ''BAR'') (Fin (1 / 4))]),
        (Sym ''BAR'', [Edge (Sym ''FOO'') (Fin 4)]),
        (Sym ''Y'', [Edge (Sym ''USDC'') (Fin 1)])] stack0_first (seed_first (Fin 3000)) =
   Inr ((seed_first (Fin 3000))(Sym ''X'' \<mapsto> Fin 1, Sym ''Y'' \<mapsto> Fin 1))"
  by (simp add: traverse.simps stack0_first_def seed_first_def call_times_def)

lemma three_swaps_assigned:
  "assign_loop_first ((seed_first (Fin 3000))(Sym ''X'' \<mapsto> Fin 1, Sym ''Y'' \<mapsto> Fin 1))
     [swap_of (leg_of ''0xa'' ''USDC'' 1) (leg_of ''0xx'' ''X'' 1),
      swap_of (leg_of ''0xf'' ''FOO'' 1) (leg_of ''0xb'' ''BAR'' 4),
      swap_of (leg_of ''0xa'' ''USDC'' 1) (leg_of ''0xy'' ''Y'' 1)] =
   Inr [swap_of ((leg_of ''0xa'' ''USDC'' 1)
                   \<lparr>value_in_usd := Some (Fin 1), total_exchanged_usd := Some (Fin 1)\<rparr>)
                ((leg_of ''0xx'' ''X'' 1)
                   \<lparr>value_in_usd := Some (Fin 1), total_exchanged_usd := Some (Fin 1)\<rparr>),
        swap_of (leg_of ''0xf'' ''FOO'' 1) (leg_of ''0xb'' ''BAR'' 4),
        swap_of ((leg_of ''0xa'' ''USDC'' 1)
                   \<lparr>value_in_usd := Some (Fin 1), total_exchanged_usd := Some (Fin 1)\<rparr>)
                ((leg_of ''0xy'' ''Y'' 1)
                   \<lparr>value_in_usd := Some (Fin 1), total_exchanged_usd := Some (Fin 1)\<rparr>)]"
  by (simp add: assign_usd_first_def seed_first_def call_times_def swap_of_def leg_of_def)

lemma three_swaps_persist:
  "persist_first (services_of m) (Fin 3000)
     [swap_of ((leg_of ''0xa'' ''USDC'' 1)
                   \<lparr>value_in_usd := Some (Fin 1), total_exchanged_usd := Some (Fin 1)\<rparr>)
                ((leg_of ''0xx'' ''X'' 1)
                   \<lparr>value_in_usd := Some (Fin 1), total_exchanged_usd := Some (Fin 1)\<rparr>),
        swap_of (leg_of ''0xf'' ''FOO'' 1) (leg_of ''0xb'' ''BAR'' 4),
        swap_of ((leg_of ''0xa'' ''USDC'' 1)
                   \<lparr>value_in_usd := Some (Fin 1), total_exchanged_usd := Some (Fin 1)\<rparr>)
                ((leg_of ''0xy'' ''Y'' 1)
                   \<lparr>value_in_usd := Some (Fin 1), total_exchanged_usd := Some (Fin 1)\<rparr>)]
     \<lparr>store = 0, attempted = [], logged = []\<rparr> =
   (Some TypeError,
    \<lparr>store = 1,
     attempted = [[Num 1, Str ''0xb'', Str ''0xt'', Str ''0xa'', Str ''USDC'', Str ''1'', Str ''1'',
                   Str ''1'', Str ''0xx'', Str ''X'', Str ''1'', Str ''1'', Str ''1'', Str ''1'', Null]],
     logged = []\<rparr>)"
  by (simp add: row_values_first_def call_toString_def write_row_def services_of_def block_timestamp_def client_query_def show_dec_def
        opt_param_def symbol_param_def swap_of_def leg_of_def)

text \<open>
  C9 does not hold of the persistence loop of lines 120 to 174. For the batch of three
  swaps USDC against \<open>X\<close>, FOO against BAR and USDC against \<open>Y\<close>, the second swap has
  no USD fields when it reaches the loop (FOO and BAR are unreachable from the anchors);
  building its parameters calls \<^verbatim>\<open>toString\<close> on \<^verbatim>\<open>undefined\<close> outside the
  \<^verbatim>\<open>try\<close>, so fillUSDAmounts raises a TypeError after one row was attempted, and the
  third row is attempted by nothing.
\<close>

theorem first_persistence_loop_raises:
  "fillUSDAmounts_first (services_of (\<lambda>i. Inl Rejected))
     [swap_of (leg_of ''0xa'' ''USDC'' 1) (leg_of ''0xx'' ''X'' 1),
      swap_of (leg_of ''0xf'' ''FOO'' 1) (leg_of ''0xb'' ''BAR'' 4),
      swap_of (leg_of ''0xa'' ''USDC'' 1) (leg_of ''0xy'' ''Y'' 1)] (Fin 3000) 0 = Inl TypeError \<and>
   (\<exists>events s.
      assign_loop_first ((seed_first (Fin 3000))(Sym ''X'' \<mapsto> Fin 1, Sym ''Y'' \<mapsto> Fin 1))
        [swap_of (leg_of ''0xa'' ''USDC'' 1) (leg_of ''0xx'' ''X'' 1),
         swap_of (leg_of ''0xf'' ''FOO'' 1) (leg_of ''0xb'' ''BAR'' 4),
         swap_of (leg_of ''0xa'' ''USDC'' 1) (leg_of ''0xy'' ''Y'' 1)] = Inr events \<and>
      length events = 3 \<and> value_in_usd (token0 (events ! 1)) = None \<and>
      persist_first (services_of (\<lambda>i. Inl Rejected)) (Fin 3000) events
        \<lparr>store = 0, attempted = [], logged = []\<rparr> = (Some TypeError, s) \<and>
      length (attempted s) = 1 \<and> logged s = [])"
proof -
  have "fillUSDAmounts_first (services_of (\<lambda>i. Inl Rejected))
     [swap_of (leg_of ''0xa'' ''USDC'' 1) (leg_of ''0xx'' ''X'' 1),
      swap_of (leg_of ''0xf'' ''FOO'' 1) (leg_of ''0xb'' ''BAR'' 4),
      swap_of (leg_of ''0xa'' ''USDC'' 1) (leg_of ''0xy'' ''Y'' 1)] (Fin 3000) 0 = Inl TypeError"
    by (simp only: fillUSDAmounts_first_def three_swaps_graph three_swaps_prices
          three_swaps_assigned three_swaps_persist sum.case prod.case option.case list.simps if_False)
  moreover have "value_in_usd (token0 (swap_of (leg_of ''0xf'' ''FOO'' 1) (leg_of ''0xb'' ''BAR'' 4))) = None"
    by (simp add: swap_of_def leg_of_def)
  ultimately show ?thesis
    using three_swaps_assigned three_swaps_persist [of "\<lambda>i. Inl Rejected"] by simp
qed

lemma write_row_logged:
  "logged (write_row q stmt vals s) =
     logged s @ (case fst (q (store s) stmt vals) of None \<Rightarrow> [] | Some e \<Rightarrow> [e])"
  by (simp add: write_row_def split: prod.splits option.splits)

text \<open>
  The loop of lines 425 to 479 on three rows, with a store that rejects the second
  query: three rows are attempted and one error is logged.
\<close>

lemma persist_second_row_fails:
  "length (attempted (persist (services_of m) ETH2USD ts [e1, e2, e3]
             \<lparr>store = 0, attempted = [], logged = []\<rparr>)) = 3 \<and>
   logged (persist (services_of m) ETH2USD ts [e1, e2, e3]
             \<lparr>store = 0, attempted = [], logged = []\<rparr>) = [Rejected]"
  by (simp add: write_row_def services_of_def block_timestamp_def client_query_def)

text \<open>
  The store after the loop of lines 425 to 479 is what \<^verbatim>\<open>client.query\<close> made of it,
  row after row, from the statement of lines 434 to 453 and the parameters of lines 455
  to 472. In these the entry of an amount, a USD unit price or a USD total of the
  second leg that is absent is the string \<^verbatim>\<open>0\<close>, not a null; with zero printed as
  \<^verbatim>\<open>0\<close>, the parameters of a leg without USD fields are those of the same leg with
  a price and a total of zero. The statement names 16 columns and has 15 placeholders;
  the one of lines 130 to 148 has 15 of each.
\<close>

lemma write_row_store:
  "store (write_row q stmt vals s) = snd (q (store s) stmt vals)"
  by (simp add: write_row_def split: prod.splits option.splits)

lemma persist_store:
  "store (persist srv ETH2USD ts events s) =
     fold (\<lambda>event db. snd (client_query srv db insert_swap_event
                               (row_values (Decimal_toString srv) ETH2USD ts event)))
       events (store s)"
  by (induction events arbitrary: s) (simp_all add: write_row_store)

lemma persist_rejected:
  assumes "\<And>db vals. \<exists>e. client_query srv db insert_swap_event vals = (Some e, db)"
  shows "store (persist srv ETH2USD ts events s) = store s \<and>
         length (logged (persist srv ETH2USD ts events s)) = length (logged s) + length events"
proof (induction events arbitrary: s)
  case Nil
  show ?case by simp
next
  case (Cons event events)
  let ?vals = "row_values (Decimal_toString srv) ETH2USD ts event"
  from assms [of "store s" ?vals] obtain e where
    "client_query srv (store s) insert_swap_event ?vals = (Some e, store s)" by blast
  then have "store (write_row (client_query srv) insert_swap_event ?vals s) = store s"
    "length (logged (write_row (client_query srv) insert_swap_event ?vals s)) = Suc (length (logged s))"
    by (simp_all add: write_row_def)
  with Cons.IH [of "write_row (client_query srv) insert_swap_event ?vals s"] show ?case by simp
qed

lemma insert_statements:
  "length (columns insert_swap_event) = 16" "length (placeholders insert_swap_event) = 15"
  "length (columns insert_swap_event_first) = 15" "length (placeholders insert_swap_event_first) = 15"
  by (simp_all add: insert_swap_event_def insert_swap_event_first_def)


lemma checked_insert_accepts_first:
  "length vals = 15 \<Longrightarrow>
     client_query (checking_services m) db insert_swap_event_first vals = (None, db @ [vals])"
  by (simp add: client_query_def checking_services_def checked_insert_def insert_statements)

lemma second_leg_defaults:
  "length (row_values toString ETH2USD ts event) = 16 \<and>
   row_values toString ETH2USD ts event ! 11 =
     Str (case amount (token1 event) of None \<Rightarrow> ''0'' | Some d \<Rightarrow> toString d) \<and>
   row_values toString ETH2USD ts event ! 12 =
     Str (case value_in_usd (token1 event) of None \<Rightarrow> ''0'' | Some d \<Rightarrow> toString d) \<and>
   row_values toString ETH2USD ts event ! 13 =
     Str (case total_exchanged_usd (token1 event) of None \<Rightarrow> ''0'' | Some d \<Rightarrow> toString d)"
  by (simp add: row_values_def or0_toString_def nth_Cons' del: One_nat_def)

lemma absent_as_zero:
  "toString (Fin 0) = ''0'' \<Longrightarrow>
     row_values toString ETH2USD ts
       (event\<lparr>token1 := (token1 event)\<lparr>value_in_usd := None, total_exchanged_usd := None\<rparr>\<rparr>) =
     row_values toString ETH2USD ts
       (event\<lparr>token1 := (token1 event)\<lparr>value_in_usd := Some (Fin 0),
                                         total_exchanged_usd := Some (Fin 0)\<rparr>\<rparr>)"
  by (simp add: row_values_def or0_toString_def)



text \<open>The same store accepts the statement of lines 130 to 148 and keeps the row.\<close>

lemma first_statement_is_accepted:
  "persist_first (checking_services m) (Fin 3000)
     [swap_of ((leg_of ''0xa'' ''USDC'' 1)
                   \<lparr>value_in_usd := Some (Fin 1), total_exchanged_usd := Some (Fin 1)\<rparr>)
              ((leg_of ''0xx'' ''X'' 1)
                   \<lparr>value_in_usd := Some (Fin 1), total_exchanged_usd := Some (Fin 1)\<rparr>)]
     \<lparr>store = [], attempted = [], logged = []\<rparr> =
   (None,
    \<lparr>store = [[Num 1, Str ''0xb'', Str ''0xt'', Str ''0xa'', Str ''USDC'', Str ''1'', Str ''1'',
                Str ''1'', Str ''0xx'', Str ''X'', Str ''1'', Str ''1'', Str ''1'', Str ''1'', Null]],
     attempted = [[Num 1, Str ''0xb'', Str ''0xt'', Str ''0xa'', Str ''USDC'', Str ''1'', Str ''1'',
                   Str ''1'', Str ''0xx'', Str ''X'', Str ''1'', Str ''1'', Str ''1'', Str ''1'', Null]],
     logged = []\<rparr>)"
proof -
  have d: "Decimal_toString (checking_services m) = show_dec" by (simp add: checking_services_def)
  show ?thesis
    by (simp add: row_values_first_def call_toString_def write_row_def checked_insert_accepts_first
          d show_dec_def opt_param_def symbol_param_def swap_of_def leg_of_def)
qed

section \<open>The busy flag of the aggregator\<close>

text \<open>
  After a cycle the busy flag is set exactly when the cycle ended with an exception, and
  while it is set the handler drops every log.
\<close>

lemma parseSwapEvents_flag:
  "PARSING (snd (parseSwapEvents prov srv db s)) \<longleftrightarrow> fst (parseSwapEvents prov srv db s) \<noteq> None"
  by (simp add: parseSwapEvents_def Let_def split: sum.splits prod.splits option.splits)

lemma on_log_busy: "PARSING s \<Longrightarrow> on_log lg s = s"
  by (simp add: on_log_def)

text \<open>
  C2 does not hold of the code. A log arrives in the idle state and the cycle starts;
  the price request of getEthereumUSD is rejected. The cycle ends with that exception
  and leaves the busy flag set: the next two logs are dropped, and so is every later
  one, since nothing else clears the flag.
\<close>

theorem failed_cycle_leaves_flag_set:
  "on_log (swap_log 1) idle =
     idle\<lparr>logs := [swap_log 1], timer := True, ARRIVING := True\<rparr> \<and>
   parseSwapEvents offline_providers (services_of (\<lambda>i. Inl Rejected)) 0 (on_log (swap_log 1) idle) =
     (Some Rejected, idle\<lparr>logs := [swap_log 1], timer := True, PARSING := True\<rparr>) \<and>
   on_log (swap_log 2)
     (snd (parseSwapEvents offline_providers (services_of (\<lambda>i. Inl Rejected)) 0
             (on_log (swap_log 1) idle))) =
     idle\<lparr>logs := [swap_log 1], timer := True, PARSING := True\<rparr> \<and>
   on_log (swap_log 3)
     (on_log (swap_log 2)
        (snd (parseSwapEvents offline_providers (services_of (\<lambda>i. Inl Rejected)) 0
                (on_log (swap_log 1) idle)))) =
     idle\<lparr>logs := [swap_log 1], timer := True, PARSING := True\<rparr>"
  by (simp add: on_log_def idle_def parseSwapEvents_def getEthereumUSD_def offline_providers_def)

text \<open>
  Line 155 passes no \<^verbatim>\<open>web3\<close>, so line 422 raises a TypeError in every cycle whose
  batch was priced. A cycle is started by the timer that an arriving log sets, so its
  list of logs is never empty: every cycle ends with an exception and with the busy flag
  set, also when every request is answered.
\<close>

lemma fillUSDAmounts_without_web3:
  "ses \<noteq> [] \<Longrightarrow> web3 srv = None \<Longrightarrow> \<exists>e. fillUSDAmounts srv ses E db = Inl e"
  by (auto simp: fillUSDAmounts_def block_timestamp_def split: sum.splits)

lemma parse_log_decoded:
  "parse_log prov lg d = (None, d') \<Longrightarrow> length (decoded d') = Suc (length (decoded d))"
  by (auto simp: parse_log_def resolve_pair_def resolve_token_def Let_def
        split: sum.splits prod.splits option.splits)

lemma parse_logs_decoded:
  "parse_logs prov lgs d = (None, d') \<Longrightarrow> length (decoded d') = length (decoded d) + length lgs"
proof (induction lgs arbitrary: d)
  case Nil
  then show ?case by simp
next
  case (Cons lg lgs)
  from Cons.prems obtain d1 where 1: "parse_log prov lg d = (None, d1)"
    and 2: "parse_logs prov lgs d1 = (None, d')"
    by (auto split: prod.splits option.splits)
  from parse_log_decoded [OF 1] Cons.IH [OF 2] show ?case by simp
qed

lemma on_log_logs: "\<not> PARSING s \<Longrightarrow> logs (on_log lg s) \<noteq> [] \<and> timer (on_log lg s)"
  by (simp add: on_log_def Let_def)

lemma every_cycle_raises:
  assumes "logs s \<noteq> []"
  shows "fst (parseSwapEvents prov srv db s) \<noteq> None \<and> PARSING (snd (parseSwapEvents prov srv db s))"
proof -
  let ?d0 = "\<lparr>amounts = (None, None), pairTokens = pair_cache (s\<lparr>PARSING := True, ARRIVING := False\<rparr>),
             tokens = token_cache (s\<lparr>PARSING := True, ARRIVING := False\<rparr>), decoded = []\<rparr>"
  have "fst (parseSwapEvents prov srv db s) \<noteq> None"
  proof (cases "getEthereumUSD prov")
    case (Inl e)
    then show ?thesis by (simp add: parseSwapEvents_def Let_def)
  next
    case (Inr E)
    show ?thesis
    proof (cases "parse_logs prov (logs s) ?d0")
      case (Pair r d)
      show ?thesis
      proof (cases r)
        case (Some e)
        with Inr Pair show ?thesis by (simp add: parseSwapEvents_def Let_def)
      next
        case None
        with Pair parse_logs_decoded [of prov "logs s" ?d0 d] assms have "decoded d \<noteq> []" by auto
        from fillUSDAmounts_without_web3 [OF this, of "srv\<lparr>web3 := None, client := None\<rparr>" E db]
        obtain e where "fillUSDAmounts (srv\<lparr>web3 := None, client := None\<rparr>) (decoded d) E db = Inl e"
          by auto
        with Inr Pair None show ?thesis by (simp add: parseSwapEvents_def Let_def)
      qed
    qed
  qed
  with parseSwapEvents_flag [of prov srv db s] show ?thesis by simp
qed

lemma answered_cycle_raises:
  "fst (parseSwapEvents online_providers (services_of m) 0 (on_log (swap_log 1) idle)) = Some TypeError \<and>
   PARSING (snd (parseSwapEvents online_providers (services_of m) 0 (on_log (swap_log 1) idle)))"
proof -
  define s where "s = on_log (swap_log 1) idle"
  have l: "logs s = [swap_log 1]" "pair_cache s = Map.empty" "token_cache s = Map.empty"
    by (simp_all add: s_def on_log_def idle_def)
  obtain d where d: "parse_logs online_providers [swap_log 1]
     \<lparr>amounts = (None, None), pairTokens = Map.empty, tokens = Map.empty, decoded = []\<rparr> = (None, d)"
    and ev: "\<exists>ev. decoded d = [ev] \<and> amount (token0 ev) \<noteq> None \<and> amount (token1 ev) \<noteq> None"
    by (simp add: parse_log_def swap_amounts_def swap_log_def online_providers_def resolve_pair_def
        getPairTokenSymbols_def resolve_token_def decode_legs_def formatUnits_def
        directional_legs_def UNISWAP_V3_SWAP_EVENT_def Let_def log.extend_def swapEvent.fields_def)
  from ev have am: "\<forall>se \<in> set (decoded d). amount (token0 se) \<noteq> None \<and> amount (token1 se) \<noteq> None"
    and ne: "decoded d \<noteq> []" by auto
  from price_batch_total [OF am] obtain st evs where
    "price_batch m (decoded d) (Fin 3000) = Inr (st, evs)" by blast
  with ne have f: "fillUSDAmounts ((services_of m)\<lparr>web3 := None, client := None\<rparr>) (decoded d) (Fin 3000) 0
      = Inl TypeError"
    by (simp add: fillUSDAmounts_def block_timestamp_def services_of_def)
  have g: "getEthereumUSD online_providers = Inr (Fin 3000)"
    by (simp add: getEthereumUSD_def online_providers_def)
  have "parseSwapEvents online_providers (services_of m) 0 s =
      (Some TypeError, s\<lparr>PARSING := True, ARRIVING := False, pair_cache := pairTokens d,
                             token_cache := tokens d\<rparr>)"
    using g d f by (simp add: parseSwapEvents_def Let_def l)
  then show ?thesis unfolding s_def by simp
qed

end
